theory Spec2Isabelle
  imports Main "HOL-Library.Word"
begin

unbundle bit_operations_syntax

section \<open>The byte-level decoder (src/utf-8/decoder.h)\<close>

text \<open>
  Bytes are \<open>char8_t\<close>/\<open>uint8_t\<close>, code points are \<open>unsigned long\<close> (64 bits on the
  LP64 targets the repository is built for). A bounds-checked \<open>std::array::at\<close> throws
  \<open>std::out_of_range\<close>; the exception is the \<open>Inl\<close> branch of every result.
\<close>

type_synonym byte = "8 word"
type_synonym codepoint = "64 word"

datatype exn = Out_of_range

definition at_ix :: "'a list \<Rightarrow> nat \<Rightarrow> exn + 'a" where
  "at_ix xs i = (if i < length xs then Inr (xs ! i) else Inl Out_of_range)"

definition char_classes :: "byte list" where
  "char_classes =
    [
     0, 0, 0, 0, 0, 0, 0, 0, 0, 0, 0, 0, 0, 0, 0, 0,
     0, 0, 0, 0, 0, 0, 0, 0, 0, 0, 0, 0, 0, 0, 0, 0,
     0, 0, 0, 0, 0, 0, 0, 0, 0, 0, 0, 0, 0, 0, 0, 0,
     0, 0, 0, 0, 0, 0, 0, 0, 0, 0, 0, 0, 0, 0, 0, 0,
     0, 0, 0, 0, 0, 0, 0, 0, 0, 0, 0, 0, 0, 0, 0, 0,
     0, 0, 0, 0, 0, 0, 0, 0, 0, 0, 0, 0, 0, 0, 0, 0,
     0, 0, 0, 0, 0, 0, 0, 0, 0, 0, 0, 0, 0, 0, 0, 0,
     0, 0, 0, 0, 0, 0, 0, 0, 0, 0, 0, 0, 0, 0, 0, 0,
     1, 1, 1, 1, 1, 1, 1, 1, 1, 1, 1, 1, 1, 1, 1, 1,
     9, 9, 9, 9, 9, 9, 9, 9, 9, 9, 9, 9, 9, 9, 9, 9,
     7, 7, 7, 7, 7, 7, 7, 7, 7, 7, 7, 7, 7, 7, 7, 7,
     7, 7, 7, 7, 7, 7, 7, 7, 7, 7, 7, 7, 7, 7, 7, 7,
     8, 8, 2, 2, 2, 2, 2, 2, 2, 2, 2, 2, 2, 2, 2, 2,
     2, 2, 2, 2, 2, 2, 2, 2, 2, 2, 2, 2, 2, 2, 2, 2,
     10, 3, 3, 3, 3, 3, 3, 3, 3, 3, 3, 3, 3, 4, 3, 3,
     11, 6, 6, 6, 5, 8, 8, 8, 8, 8, 8, 8, 8, 8, 8, 8
    ]"

definition num_classes :: nat where
  "num_classes = 12"

definition num_fsm_rows :: nat where
  "num_fsm_rows = 8"

definition replacement_char :: codepoint where
  "replacement_char = 0xfffd"

datatype state = Start | Next1 | Next2 | Next3 | Next4 | Next5 | Next6 | Next7 | Error

text \<open>The value of \<open>static_cast<uint8_t>(s)\<close>.\<close>

fun state_index :: "state \<Rightarrow> nat" where
  "state_index Start = 0"
| "state_index Next1 = 1"
| "state_index Next2 = 2"
| "state_index Next3 = 3"
| "state_index Next4 = 4"
| "state_index Next5 = 5"
| "state_index Next6 = 6"
| "state_index Next7 = 7"
| "state_index Error = 8"

definition fsm :: "state list" where
  "fsm =
    [
     Start, Error, Next1, Next2, Next4, Next7,
     Next6, Error, Error, Error, Next3, Next5,
     Error, Start, Error, Error, Error, Error,
     Error, Start, Error, Start, Error, Error,
     Error, Next1, Error, Error, Error, Error,
     Error, Next1, Error, Next1, Error, Error,
     Error, Error, Error, Error, Error, Error,
     Error, Next1, Error, Error, Error, Error,
     Error, Next1, Error, Error, Error, Error,
     Error, Error, Error, Next1, Error, Error,
     Error, Error, Error, Error, Error, Error,
     Error, Next2, Error, Next2, Error, Error,
     Error, Next2, Error, Error, Error, Error,
     Error, Next2, Error, Next2, Error, Error,
     Error, Next2, Error, Error, Error, Error,
     Error, Error, Error, Error, Error, Error

    ]"

datatype to_deliver = Nothing | Code_point | Deliver_error

record decoder =
  code :: codepoint
  state :: state
  to_deliver :: to_deliver

text \<open>A default-constructed decoder: \<open>code_{}\<close>, \<open>state_{state::start}\<close>, \<open>to_deliver_{}\<close>.\<close>

definition new_decoder :: decoder where
  "new_decoder = \<lparr>code = 0, state = Start, to_deliver = Nothing\<rparr>"

text \<open>
  \<open>fsm_.at(static_cast<uint8_t>(s) * num_classes_ + type)\<close>: the index is computed in
  \<open>int\<close> and cannot wrap.
\<close>

definition next_state :: "state \<Rightarrow> byte \<Rightarrow> exn + state" where
  "next_state s type = at_ix fsm (state_index s * num_classes + unat type)"

text \<open>
  \<open>byte & (byte_mask >> type)\<close> with \<open>byte_mask = 0xff\<close>, returned as \<open>uint8_t\<close>. The
  mask fits in eight bits, so the shift of the \<open>int\<close> 255 is the shift of the byte 255.
\<close>

definition start_byte_payload :: "byte \<Rightarrow> byte \<Rightarrow> byte" where
  "start_byte_payload b type = b AND drop_bit (unat type) 0xff"

definition data_mask :: byte where
  "data_mask = 0x3f"

definition data_shift :: nat where
  "data_shift = 6"

definition decode :: "decoder \<Rightarrow> byte \<Rightarrow> exn + (codepoint option \<times> decoder)" where
  "decode d b =
    (case at_ix char_classes (unat b) of
       Inl e \<Rightarrow> Inl e
     | Inr type \<Rightarrow>
        let d0 = d\<lparr>to_deliver := Nothing\<rparr> in
        (case next_state (state d0) type of
           Inl e \<Rightarrow> Inl e
         | Inr new_state \<Rightarrow>
            if new_state = Error then
              if state d0 = Start then Inr (Some replacement_char, d0)
              else
                (case next_state Start type of
                   Inl e \<Rightarrow> Inl e
                 | Inr s \<Rightarrow>
                    (case s of
                       Error \<Rightarrow>
                         Inr (Some replacement_char,
                              d0\<lparr>state := Start, to_deliver := Deliver_error\<rparr>)
                     | Start \<Rightarrow>
                         Inr (Some replacement_char,
                              d0\<lparr>state := Start,
                                 code := ucast (start_byte_payload b type),
                                 to_deliver := Code_point\<rparr>)
                     | _ \<Rightarrow>
                         Inr (Some replacement_char,
                              d0\<lparr>state := s,
                                 code := ucast (start_byte_payload b type)\<rparr>)))
            else
              let d1 = d0\<lparr>code := (if state d0 = Start
                                     then ucast (start_byte_payload b type)
                                     else push_bit data_shift (code d0) OR ucast (b AND data_mask)),
                           state := new_state\<rparr>
              in if state d1 = Start then Inr (Some (code d1), d1) else Inr (None, d1)))"

definition fetch :: "decoder \<Rightarrow> codepoint option \<times> decoder" where
  "fetch d =
    (let c = (if to_deliver d = Code_point then Some (code d)
              else if to_deliver d = Deliver_error then Some replacement_char
              else None)
     in (c, d\<lparr>to_deliver := Nothing\<rparr>))"

text \<open>A \<open>const\<close> member function: it only reads the decoder.\<close>

definition check_last_error :: "decoder \<Rightarrow> codepoint option" where
  "check_last_error d = (if state d \<noteq> Start then Some replacement_char else None)"


section \<open>Driving the decoder\<close>

text \<open>
  The protocol the documentation of \<open>decode\<close> asks for: every byte goes to \<open>decode\<close>;
  when \<open>decode\<close> returns a value, \<open>fetch\<close> is called once; after the last byte
  \<open>check_last_error\<close> is called once. The run is recorded call by call.
\<close>

datatype event =
    Decoded "codepoint option"
  | Fetched "codepoint option"
  | Last_error "codepoint option"

fun protocol :: "decoder \<Rightarrow> byte list \<Rightarrow> exn + event list" where
  "protocol d [] = Inr [Last_error (check_last_error d)]"
| "protocol d (b # bs) =
    (case decode d b of
       Inl e \<Rightarrow> Inl e
     | Inr (None, d1) \<Rightarrow> map_sum id ((#) (Decoded None)) (protocol d1 bs)
     | Inr (Some c, d1) \<Rightarrow>
         (case fetch d1 of
            (f, d2) \<Rightarrow> map_sum id (\<lambda>t. Decoded (Some c) # Fetched f # t) (protocol d2 bs)))"

fun event_value :: "event \<Rightarrow> codepoint option" where
  "event_value (Decoded v) = v"
| "event_value (Fetched v) = v"
| "event_value (Last_error v) = v"

text \<open>The code points of a run, in the order the calls returned them.\<close>

definition emitted :: "event list \<Rightarrow> codepoint list" where
  "emitted es = List.map_filter event_value es"

definition drive :: "decoder \<Rightarrow> byte list \<Rightarrow> exn + codepoint list" where
  "drive d bs = map_sum id emitted (protocol d bs)"

fun opt_list :: "'a option \<Rightarrow> 'a list" where
  "opt_list None = []"
| "opt_list (Some x) = [x]"

text \<open>
  The reference driving protocol of the view: for each byte, \<open>decode\<close>, then its value
  if any, then the value of \<open>fetch\<close> if any; after the last byte the value of
  \<open>check_last_error\<close> if any.
\<close>

fun reference_drive :: "decoder \<Rightarrow> byte list \<Rightarrow> exn + codepoint list" where
  "reference_drive d [] = Inr (opt_list (check_last_error d))"
| "reference_drive d (b # bs) =
    (case decode d b of
       Inl e \<Rightarrow> Inl e
     | Inr (v, d1) \<Rightarrow>
         (case fetch d1 of
            (f, d2) \<Rightarrow> map_sum id (\<lambda>r. opt_list v @ opt_list f @ r) (reference_drive d2 bs)))"

text \<open>
  \<open>n\<close> calls of the \<open>const\<close> function \<open>check_last_error\<close> in a row, with no
  other call between them: the results, and the decoder afterwards.
\<close>

fun check_last_error_calls :: "nat \<Rightarrow> decoder \<Rightarrow> codepoint option list \<times> decoder" where
  "check_last_error_calls 0 d = ([], d)"
| "check_last_error_calls (Suc n) d =
    (case check_last_error_calls n d of (rs, d') \<Rightarrow> (check_last_error d # rs, d'))"

text \<open>The decoder states a caller can produce from a fresh decoder.\<close>

inductive reachable :: "decoder \<Rightarrow> bool" where
  reachable_new: "reachable new_decoder"
| reachable_decode: "reachable d \<Longrightarrow> decode d b = Inr (v, d') \<Longrightarrow> reachable d'"
| reachable_fetch: "reachable d \<Longrightarrow> fetch d = (v, d') \<Longrightarrow> reachable d'"

text \<open>Unicode scalar values: up to U+10FFFF, without the surrogates U+D800..U+DFFF.\<close>

definition is_scalar :: "codepoint \<Rightarrow> bool" where
  "is_scalar c = (unat c \<le> 0x10ffff \<and> (unat c < 0xd800 \<or> 0xdfff < unat c))"

section \<open>The decode view (src/utf-8.h)\<close>

text \<open>
  The iterator of \<open>decode_view\<close>. The pair \<open>it_\<close>, \<open>end_\<close> is the list of the bytes
  from \<open>it_\<close> up to \<open>end_\<close>: \<open>it_ == end_\<close> is the empty list, \<open>*it_\<close> its head and
  \<open>++it_\<close> its tail.
\<close>

record iterator =
  it :: "byte list"
  decoder_it :: decoder
  code_it :: codepoint
  has_last_error :: bool

text \<open>
  The loop of \<open>iterator::decode\<close>:
  \<open>while (it_ != end_ && not(code = decoder_.decode(*it_)).has_value()) ++it_;\<close>
  It returns \<open>code\<close>, the decoder and the position it stops at.
\<close>

fun pull :: "decoder \<Rightarrow> byte list \<Rightarrow> exn + (codepoint option \<times> decoder \<times> byte list)" where
  "pull d [] = Inr (None, d, [])"
| "pull d (b # bs) =
    (case decode d b of
       Inl e \<Rightarrow> Inl e
     | Inr (None, d1) \<Rightarrow> pull d1 bs
     | Inr (Some c, d1) \<Rightarrow> Inr (Some c, d1, b # bs))"

text \<open>
  \<open>iterator::decode\<close>. Where the loop stops before the end, \<open>code\<close> holds a value and
  \<open>*code\<close> reads it; reading an empty optional is kept as the branch \<open>Empty_optional\<close>.
\<close>

datatype view_exn = Decoder_exn exn | Empty_optional

definition decode_it :: "iterator \<Rightarrow> view_exn + iterator" where
  "decode_it i =
    (case pull (decoder_it i) (it i) of
       Inl e \<Rightarrow> Inl (Decoder_exn e)
     | Inr (c, d, bs) \<Rightarrow>
         let i1 = i\<lparr>it := bs, decoder_it := d\<rparr> in
         if bs = [] then
           (case check_last_error d of
              Some v \<Rightarrow> Inr (i1\<lparr>has_last_error := True, code_it := v\<rparr>)
            | None \<Rightarrow> Inr i1)
         else
           (case c of
              Some v \<Rightarrow> Inr (i1\<lparr>code_it := v\<rparr>)
            | None \<Rightarrow> Inl Empty_optional))"

definition try_decode_one_code_point :: "iterator \<Rightarrow> view_exn + iterator" where
  "try_decode_one_code_point i =
    (case fetch (decoder_it i) of
       (c, d) \<Rightarrow>
         let i1 = i\<lparr>decoder_it := d\<rparr> in
         (case c of
            Some v \<Rightarrow> Inr (i1\<lparr>code_it := v\<rparr>)
          | None \<Rightarrow> decode_it (if it i1 \<noteq> [] then i1\<lparr>it := tl (it i1)\<rparr> else i1)))"

text \<open>The constructor: \<open>iterator(it, end)\<close> runs \<open>decode()\<close> on default-initialised fields.\<close>

definition begin_it :: "byte list \<Rightarrow> view_exn + iterator" where
  "begin_it bs =
    decode_it \<lparr>it = bs, decoder_it = new_decoder, code_it = 0, has_last_error = False\<rparr>"

text \<open>\<open>operator++\<close>, \<open>operator*\<close> and \<open>operator==\<close> against the end sentinel.\<close>

definition incr :: "iterator \<Rightarrow> view_exn + iterator" where
  "incr i =
    (if has_last_error i then Inr (i\<lparr>has_last_error := False\<rparr>)
     else try_decode_one_code_point i)"

definition deref :: "iterator \<Rightarrow> codepoint" where
  "deref i = code_it i"

definition at_end :: "iterator \<Rightarrow> bool" where
  "at_end i = (it i = [] \<and> \<not> has_last_error i)"

lemma pull_length: "pull d bs = Inr (c, d', bs') \<Longrightarrow> length bs' \<le> length bs"
proof (induction bs arbitrary: d)
  case Nil
  then show ?case by simp
next
  case (Cons b bs)
  show ?case
  proof (cases "decode d b")
    case (Inl e)
    with Cons.prems show ?thesis by simp
  next
    case (Inr r)
    obtain v d1 where r: "r = (v, d1)" by (cases r)
    show ?thesis
    proof (cases v)
      case None
      with Cons.prems Inr r have "pull d1 bs = Inr (c, d', bs')" by simp
      then have "length bs' \<le> length bs" by (rule Cons.IH)
      then show ?thesis by simp
    next
      case (Some x)
      with Cons.prems Inr r show ?thesis by auto
    qed
  qed
qed

text \<open>
  Traversing the view: \<open>for (auto c : view)\<close> reads \<open>*it\<close> and advances until the
  iterator equals the end sentinel. Every advance lowers the following weight.
\<close>

definition weight :: "iterator \<Rightarrow> nat" where
  "weight i = 3 * length (it i) + (if to_deliver (decoder_it i) = Nothing then 0 else 1)
     + (if has_last_error i then 1 else 0)"

lemma decode_it_length:
  assumes "decode_it i = Inr i'"
  shows "length (it i') \<le> length (it i)"
proof (cases "pull (decoder_it i) (it i)")
  case (Inl e)
  with assms show ?thesis by (simp add: decode_it_def)
next
  case (Inr r)
  obtain c d bs where r: "r = (c, d, bs)" by (cases r)
  from Inr r have "length bs \<le> length (it i)" by (auto dest: pull_length)
  moreover from assms Inr r have "it i' = bs"
    by (auto simp add: decode_it_def Let_def split: if_splits option.splits)
  ultimately show ?thesis by simp
qed

lemma decode_it_weight:
  "decode_it i = Inr i' \<Longrightarrow> weight i' \<le> 3 * length (it i) + 2"
  using decode_it_length [of i i'] by (simp add: weight_def)

lemma fetch_to_deliver: "fetch d = (c, d') \<Longrightarrow> to_deliver d' = Nothing"
  by (auto simp add: fetch_def)

lemma incr_weight:
  assumes "\<not> at_end i" "incr i = Inr i'"
  shows "weight i' < weight i"
proof (cases "has_last_error i")
  case True
  with assms show ?thesis by (auto simp add: incr_def weight_def)
next
  case False
  with assms(1) have ne: "it i \<noteq> []" by (simp add: at_end_def)
  obtain c d where f: "fetch (decoder_it i) = (c, d)" by (cases "fetch (decoder_it i)")
  show ?thesis
  proof (cases c)
    case None
    with f False assms(2) ne
    have "decode_it (i\<lparr>decoder_it := d, it := tl (it i)\<rparr>) = Inr i'"
      by (simp add: incr_def try_decode_one_code_point_def)
    then have "weight i' \<le> 3 * length (tl (it i)) + 2"
      using decode_it_weight [of "i\<lparr>decoder_it := d, it := tl (it i)\<rparr>" i'] by simp
    moreover have "length (tl (it i)) + 1 = length (it i)" using ne by (cases "it i") simp_all
    ultimately have "weight i' < 3 * length (it i)" by linarith
    then show ?thesis by (simp add: weight_def)
  next
    case (Some v)
    with f have "to_deliver (decoder_it i) \<noteq> Nothing"
      by (auto simp add: fetch_def split: if_splits)
    moreover from f have "to_deliver d = Nothing" by (rule fetch_to_deliver)
    moreover from Some f False assms(2) have "i' = i\<lparr>decoder_it := d, code_it := v\<rparr>"
      by (simp add: incr_def try_decode_one_code_point_def)
    ultimately show ?thesis using False by (simp add: weight_def)
  qed
qed

function collect :: "iterator \<Rightarrow> view_exn + codepoint list" where
  "collect i =
    (if at_end i then Inr []
     else (case incr i of
             Inl e \<Rightarrow> Inl e
           | Inr i' \<Rightarrow> map_sum id ((#) (deref i)) (collect i')))"
  by pat_completeness auto
termination
  by (relation "measure weight") (simp_all add: incr_weight)

definition decode_view :: "byte list \<Rightarrow> view_exn + codepoint list" where
  "decode_view bs = (case begin_it bs of Inl e \<Rightarrow> Inl e | Inr i \<Rightarrow> collect i)"


section \<open>Well-formed UTF-8 and maximal subparts\<close>

text \<open>
  The reference the decoder is compared with, written from the specification and the
  Unicode Standard (Table 3-7, well-formed UTF-8 byte sequences, and Table 3-6, the bit
  distribution), not from the code: a lead byte fixes the length of its sequence and the
  range of the second byte (E0: A0..BF, ED: 80..9F, F0: 90..BF, F4: 80..8F, otherwise
  80..BF); every later byte is in 80..BF; C0, C1 and F5..FF start nothing.
\<close>

definition tail_byte :: "byte \<Rightarrow> bool" where
  "tail_byte b = (0x80 \<le> unat b \<and> unat b \<le> 0xbf)"

definition seq_len :: "byte \<Rightarrow> nat" where
  "seq_len b0 =
    (if unat b0 \<le> 0x7f then 1
     else if 0xc2 \<le> unat b0 \<and> unat b0 \<le> 0xdf then 2
     else if 0xe0 \<le> unat b0 \<and> unat b0 \<le> 0xef then 3
     else if 0xf0 \<le> unat b0 \<and> unat b0 \<le> 0xf4 then 4
     else 0)"

definition second_ok :: "byte \<Rightarrow> byte \<Rightarrow> bool" where
  "second_ok b0 b1 =
    (if unat b0 = 0xe0 then 0xa0 \<le> unat b1 \<and> unat b1 \<le> 0xbf
     else if unat b0 = 0xed then 0x80 \<le> unat b1 \<and> unat b1 \<le> 0x9f
     else if unat b0 = 0xf0 then 0x90 \<le> unat b1 \<and> unat b1 \<le> 0xbf
     else if unat b0 = 0xf4 then 0x80 \<le> unat b1 \<and> unat b1 \<le> 0x8f
     else 0x80 \<le> unat b1 \<and> unat b1 \<le> 0xbf)"

text \<open>The byte lists that are an initial part of some well-formed sequence.\<close>

fun wf_prefix :: "byte list \<Rightarrow> bool" where
  "wf_prefix [] = True"
| "wf_prefix [b0] = (1 \<le> seq_len b0)"
| "wf_prefix [b0, b1] = (2 \<le> seq_len b0 \<and> second_ok b0 b1)"
| "wf_prefix [b0, b1, b2] = (3 \<le> seq_len b0 \<and> second_ok b0 b1 \<and> tail_byte b2)"
| "wf_prefix [b0, b1, b2, b3] =
     (4 \<le> seq_len b0 \<and> second_ok b0 b1 \<and> tail_byte b2 \<and> tail_byte b3)"
| "wf_prefix (b0 # b1 # b2 # b3 # b4 # bs) = False"

definition well_formed :: "byte list \<Rightarrow> bool" where
  "well_formed p = (case p of [] \<Rightarrow> False | b0 # _ \<Rightarrow> wf_prefix p \<and> length p = seq_len b0)"

fun scalar_of :: "byte list \<Rightarrow> codepoint" where
  "scalar_of [b0] = of_nat (unat b0)"
| "scalar_of [b0, b1] = of_nat (unat b0 mod 32 * 64 + unat b1 mod 64)"
| "scalar_of [b0, b1, b2] =
     of_nat (unat b0 mod 16 * 4096 + unat b1 mod 64 * 64 + unat b2 mod 64)"
| "scalar_of [b0, b1, b2, b3] =
     of_nat (unat b0 mod 8 * 262144 + unat b1 mod 64 * 4096 + unat b2 mod 64 * 64
             + unat b3 mod 64)"
| "scalar_of _ = replacement_char"

text \<open>
  The longest initial part of the input that is a prefix of some well-formed sequence (a
  well-formed sequence has at most four bytes).
\<close>

definition longest_wf_prefix :: "byte list \<Rightarrow> nat" where
  "longest_wf_prefix bs =
    (if 4 \<le> length bs \<and> wf_prefix (take 4 bs) then 4
     else if 3 \<le> length bs \<and> wf_prefix (take 3 bs) then 3
     else if 2 \<le> length bs \<and> wf_prefix (take 2 bs) then 2
     else if 1 \<le> length bs \<and> wf_prefix (take 1 bs) then 1
     else 0)"

text \<open>
  Substitution of maximal subparts: where the input starts with a well-formed sequence,
  its scalar value; otherwise one U+FFFD for the maximal subpart, which is the longest
  prefix of a well-formed sequence found there, or one byte when there is none.
\<close>

function ref_decode :: "byte list \<Rightarrow> codepoint list" where
  "ref_decode bs =
    (if bs = [] then []
     else
       let k = longest_wf_prefix bs in
       if well_formed (take k bs) then scalar_of (take k bs) # ref_decode (drop k bs)
       else replacement_char # ref_decode (drop (max 1 k) bs))"
  by pat_completeness auto
termination
proof (relation "measure length")
  show "wf (measure length)" by simp
next
  fix bs :: "byte list" and k
  assume "bs \<noteq> []" "k = longest_wf_prefix bs" "well_formed (take k bs)"
  then have "0 < k" by (cases k) (simp_all add: well_formed_def)
  with \<open>bs \<noteq> []\<close> show "(drop k bs, bs) \<in> measure length" by simp
next
  fix bs :: "byte list" and k
  assume "bs \<noteq> []"
  then show "(drop (max 1 k) bs, bs) \<in> measure length" by simp
qed

text \<open>The UTF-8 encoding form of a scalar value (Table 3-6).\<close>

definition byte_of_nat :: "nat \<Rightarrow> byte" where
  "byte_of_nat n = of_nat n"

definition utf8_encode :: "codepoint \<Rightarrow> byte list" where
  "utf8_encode c =
    (let n = unat c in
     if n < 0x80 then [byte_of_nat n]
     else if n < 0x800 then [byte_of_nat (0xc0 + n div 64), byte_of_nat (0x80 + n mod 64)]
     else if n < 0x10000 then
       [byte_of_nat (0xe0 + n div 4096), byte_of_nat (0x80 + n div 64 mod 64),
        byte_of_nat (0x80 + n mod 64)]
     else
       [byte_of_nat (0xf0 + n div 262144), byte_of_nat (0x80 + n div 4096 mod 64),
        byte_of_nat (0x80 + n div 64 mod 64), byte_of_nat (0x80 + n mod 64)])"

section \<open>Byte classes and transitions by byte range\<close>

text \<open>
  The class table and the transition table are looked up by index in the code. The
  following views describe the same tables by byte ranges; each is proved equal to the
  table lookup before it is used.
\<close>

definition class_of :: "byte \<Rightarrow> byte" where
  "class_of b = char_classes ! unat b"

definition class_by_range :: "byte \<Rightarrow> byte" where
  "class_by_range b =
    (let n = unat b in
     if n \<le> 0x7f then 0 else if n \<le> 0x8f then 1 else if n \<le> 0x9f then 9
     else if n \<le> 0xbf then 7 else if n \<le> 0xc1 then 8 else if n \<le> 0xdf then 2
     else if n = 0xe0 then 10 else if n = 0xed then 4 else if n \<le> 0xef then 3
     else if n = 0xf0 then 11 else if n \<le> 0xf3 then 6 else if n = 0xf4 then 5 else 8)"

text \<open>What the \<open>Start\<close> row of the transition table does with a byte.\<close>

definition start_target :: "byte \<Rightarrow> state" where
  "start_target b =
    (let n = unat b in
     if n \<le> 0x7f then Start else if n \<le> 0xc1 then Error else if n \<le> 0xdf then Next1
     else if n = 0xe0 then Next3 else if n = 0xed then Next4 else if n \<le> 0xef then Next2
     else if n = 0xf0 then Next5 else if n \<le> 0xf3 then Next6 else if n = 0xf4 then Next7
     else Error)"

text \<open>The bytes a continuation state accepts, and the state it moves to on them.\<close>

fun accepts :: "state \<Rightarrow> byte \<Rightarrow> bool" where
  "accepts Next1 b = (0x80 \<le> unat b \<and> unat b \<le> 0xbf)"
| "accepts Next2 b = (0x80 \<le> unat b \<and> unat b \<le> 0xbf)"
| "accepts Next3 b = (0xa0 \<le> unat b \<and> unat b \<le> 0xbf)"
| "accepts Next4 b = (0x80 \<le> unat b \<and> unat b \<le> 0x9f)"
| "accepts Next5 b = (0x90 \<le> unat b \<and> unat b \<le> 0xbf)"
| "accepts Next6 b = (0x80 \<le> unat b \<and> unat b \<le> 0xbf)"
| "accepts Next7 b = (0x80 \<le> unat b \<and> unat b \<le> 0x8f)"
| "accepts Start b = False"
| "accepts Error b = False"

fun cont_target :: "state \<Rightarrow> state" where
  "cont_target Next1 = Start"
| "cont_target Next2 = Next1"
| "cont_target Next3 = Next1"
| "cont_target Next4 = Next1"
| "cont_target Next5 = Next2"
| "cont_target Next6 = Next2"
| "cont_target Next7 = Next2"
| "cont_target Start = Error"
| "cont_target Error = Error"

text \<open>
  The accumulator a state can hold, as a number: after the first bytes of a sequence the
  accumulator is a prefix of a scalar value that is neither overlong, nor a surrogate, nor
  above U+10FFFF. A pending code point is a single byte below 0x80.
\<close>

fun code_ok :: "state \<Rightarrow> nat \<Rightarrow> bool" where
  "code_ok Start n = True"
| "code_ok Next1 n = (2 \<le> n \<and> n \<le> 0x43ff \<and> (n < 0x360 \<or> 0x37f < n))"
| "code_ok Next2 n = (1 \<le> n \<and> n \<le> 0x10f \<and> n \<noteq> 0xd)"
| "code_ok Next3 n = (n = 0)"
| "code_ok Next4 n = (n = 0xd)"
| "code_ok Next5 n = (n = 0)"
| "code_ok Next6 n = (1 \<le> n \<and> n \<le> 3)"
| "code_ok Next7 n = (n = 4)"
| "code_ok Error n = False"

definition decoder_inv :: "decoder \<Rightarrow> bool" where
  "decoder_inv d =
    (code_ok (state d) (unat (code d))
     \<and> (to_deliver d \<noteq> Code_point \<or> (state d = Start \<and> unat (code d) \<le> 0x7f)))"

section \<open>Bit arithmetic\<close>

lemma push_or_nat:
  fixes n m k :: nat
  assumes "m < 2 ^ k"
  shows "push_bit k n OR m = n * 2 ^ k + m"
proof -
  have "take_bit k m = m" using assms by (simp add: take_bit_nat_eq_self)
  then have "\<forall>i. bit m i \<longrightarrow> i < k"
    by (metis bit_take_bit_iff)
  then have "push_bit k n AND m = 0"
    by (fastforce simp add: bit_eq_iff bit_simps)
  then have "push_bit k n + m = push_bit k n OR m"
    by (rule disjunctive_add_eq_or)
  then show ?thesis by (simp add: push_bit_eq_mult)
qed

lemma unat_and_mask_byte: "unat ((b :: byte) AND mask k) = unat b mod 2 ^ k"
proof -
  have "b AND mask k = take_bit k b" by (rule take_bit_eq_mask [symmetric])
  then have "unat (b AND mask k) = unat (take_bit k b)" by (rule arg_cong)
  also have "\<dots> = take_bit k (unat b)" by (rule unsigned_take_bit_eq)
  also have "\<dots> = unat b mod 2 ^ k" by (rule take_bit_eq_mod)
  finally show ?thesis .
qed

lemma data_mask_eq: "data_mask = mask 6"
  by (simp add: data_mask_def mask_eq_exp_minus_1)

lemma low6: "unat (b AND data_mask) = unat b mod 64"
  using unat_and_mask_byte [of b 6] by (simp add: data_mask_eq)

lemma unat_ucast_byte: "unat (ucast (x :: byte) :: codepoint) = unat x"
proof -
  have "unat x < 2 ^ 8" using unsigned_less [of x] by simp
  then have "unat x < 2 ^ 64" by simp
  then show ?thesis by (simp add: unsigned_ucast_eq take_bit_nat_eq_self)
qed

lemma acc_step:
  fixes c :: codepoint and b :: byte
  assumes "unat c < 2 ^ 58"
  shows "unat (push_bit data_shift c OR ucast (b AND data_mask)) = unat c * 64 + unat b mod 64"
proof -
  have m: "unat b mod 64 < 2 ^ 6" by simp
  have "unat c * 64 < 2 ^ 64" using assms by simp
  then have t: "take_bit 64 (unat c * 64) = unat c * 64"
    by (simp add: take_bit_nat_eq_self)
  have "unat (push_bit data_shift c OR ucast (b AND data_mask))
        = take_bit 64 (push_bit 6 (unat c)) OR unat (ucast (b AND data_mask) :: codepoint)"
    by (simp add: unsigned_or_eq unsigned_push_bit_eq data_shift_def)
  also have "\<dots> = push_bit 6 (unat c) OR (unat b mod 64)"
    using t by (simp add: push_bit_eq_mult low6 unat_ucast_byte)
  also have "\<dots> = unat c * 64 + unat b mod 64"
    using push_or_nat [OF m, of "unat c"] by simp
  finally show ?thesis .
qed

lemma payload_nat:
  "unat (ucast (start_byte_payload b t) :: codepoint) = unat b mod 2 ^ (8 - unat t)"
proof -
  have "(0xff :: byte) = mask 8" by (simp add: mask_eq_exp_minus_1)
  then have "drop_bit (unat t) (0xff :: byte) = mask (8 - unat t)"
    by (simp only: bit_eq_iff) (auto simp add: bit_simps)
  then show ?thesis
    by (simp add: start_byte_payload_def unat_ucast_byte unat_and_mask_byte)
qed

section \<open>The tables, read by byte range\<close>

lemma char_classes_table:
  "map (\<lambda>n. class_by_range (of_nat n)) [0..<256] = char_classes"
  by code_simp

lemma class_of_range: "class_of b = class_by_range b"
proof -
  have "unat b < 256" using unsigned_less [of b] by simp
  then have "map (\<lambda>n. class_by_range (of_nat n)) [0..<256] ! unat b
             = class_by_range (of_nat (unat b))"
    by (simp only: nth_map length_upt nth_upt) simp
  then show ?thesis by (simp add: class_of_def char_classes_table)
qed

lemma length_char_classes: "length char_classes = 256"
  by (simp add: char_classes_def)

lemma at_char_classes: "at_ix char_classes (unat b) = Inr (class_of b)"
  using unsigned_less [of b] by (simp add: at_ix_def length_char_classes class_of_def)

lemma byte_range_cases:
  fixes n :: nat
  obtains
      "n \<le> 0x7f"
    | "0x80 \<le> n \<and> n \<le> 0x8f"
    | "0x90 \<le> n \<and> n \<le> 0x9f"
    | "0xa0 \<le> n \<and> n \<le> 0xbf"
    | "0xc0 \<le> n \<and> n \<le> 0xc1"
    | "0xc2 \<le> n \<and> n \<le> 0xdf"
    | "n = 0xe0"
    | "0xe1 \<le> n \<and> n \<le> 0xef \<and> n \<noteq> 0xed"
    | "n = 0xed"
    | "n = 0xf0"
    | "0xf1 \<le> n \<and> n \<le> 0xf3"
    | "n = 0xf4"
    | "0xf5 \<le> n"
proof (cases "n \<le> 0xbf")
  case True
  then show ?thesis using that(1-4) by force
next
  case F1: False
  show ?thesis
  proof (cases "n \<le> 0xe0")
    case True
    then show ?thesis using F1 that(5-7) by force
  next
    case F2: False
    show ?thesis
    proof (cases "n \<le> 0xef")
      case True
      then show ?thesis using F2 that(8-9) by force
    next
      case False
      then show ?thesis using that(10-13) by force
    qed
  qed
qed

lemma class_cases [case_names ascii cont_lo cont_mid cont_hi bad_lo lead2 e0 lead3 ed f0
    lead4 f4 bad_hi]:
  obtains "unat b \<le> 0x7f" "class_of b = 0"
  | "0x80 \<le> unat b" "unat b \<le> 0x8f" "class_of b = 1"
  | "0x90 \<le> unat b" "unat b \<le> 0x9f" "class_of b = 9"
  | "0xa0 \<le> unat b" "unat b \<le> 0xbf" "class_of b = 7"
  | "0xc0 \<le> unat b" "unat b \<le> 0xc1" "class_of b = 8"
  | "0xc2 \<le> unat b" "unat b \<le> 0xdf" "class_of b = 2"
  | "unat b = 0xe0" "class_of b = 10"
  | "0xe1 \<le> unat b" "unat b \<le> 0xef" "unat b \<noteq> 0xed" "class_of b = 3"
  | "unat b = 0xed" "class_of b = 4"
  | "unat b = 0xf0" "class_of b = 11"
  | "0xf1 \<le> unat b" "unat b \<le> 0xf3" "class_of b = 6"
  | "unat b = 0xf4" "class_of b = 5"
  | "0xf5 \<le> unat b" "class_of b = 8"
proof (cases "unat b" rule: byte_range_cases)
  case 1
  then show ?thesis
    using that(1) by (simp add: class_of_range class_by_range_def)
next
  case 2
  then show ?thesis
    using that(2) by (simp add: class_of_range class_by_range_def)
next
  case 3
  then show ?thesis
    using that(3) by (simp add: class_of_range class_by_range_def)
next
  case 4
  then show ?thesis
    using that(4) by (simp add: class_of_range class_by_range_def)
next
  case 5
  then show ?thesis
    using that(5) by (simp add: class_of_range class_by_range_def)
next
  case 6
  then show ?thesis
    using that(6) by (simp add: class_of_range class_by_range_def)
next
  case 7
  then show ?thesis
    using that(7) by (simp add: class_of_range class_by_range_def)
next
  case 8
  then show ?thesis
    using that(8) by (simp add: class_of_range class_by_range_def)
next
  case 9
  then show ?thesis
    using that(9) by (simp add: class_of_range class_by_range_def)
next
  case 10
  then show ?thesis
    using that(10) by (simp add: class_of_range class_by_range_def)
next
  case 11
  then show ?thesis
    using that(11) by (simp add: class_of_range class_by_range_def)
next
  case 12
  then show ?thesis
    using that(12) by (simp add: class_of_range class_by_range_def)
next
  case 13
  then show ?thesis
    using that(13) by (simp add: class_of_range class_by_range_def)
qed

lemma class_of_less: "class_of b < 12"
  by (cases b rule: class_cases) simp_all

lemma next_state_Start: "next_state Start (class_of b) = Inr (start_target b)"
  by (cases b rule: class_cases)
     (simp_all add: next_state_def at_ix_def fsm_def num_classes_def start_target_def)

lemma next_state_cont:
  "s \<noteq> Start \<Longrightarrow> s \<noteq> Error \<Longrightarrow>
   next_state s (class_of b) = Inr (if accepts s b then cont_target s else Error)"
  by (cases b rule: class_cases; cases s)
     (simp_all add: next_state_def at_ix_def fsm_def num_classes_def)

lemma next_state_Error: "next_state Error t = Inl Out_of_range"
  by (simp add: next_state_def at_ix_def fsm_def num_classes_def)

section \<open>One call of decode, by state and byte range\<close>

lemma cont_target_not_Error: "s \<noteq> Start \<Longrightarrow> s \<noteq> Error \<Longrightarrow> cont_target s \<noteq> Error"
  by (cases s) simp_all

lemma start_target_ascii: "start_target b = Start \<longleftrightarrow> unat b \<le> 0x7f"
  by (simp add: start_target_def Let_def)

lemma payload_ascii: "unat b \<le> 0x7f \<Longrightarrow> start_byte_payload b (class_of b) = b"
proof -
  assume "unat b \<le> 0x7f"
  then have "class_of b = 0" by (simp add: class_of_range class_by_range_def)
  moreover have "(0xff :: byte) = mask 8" by (simp add: mask_eq_exp_minus_1)
  moreover have "b AND mask 8 = b"
    using take_bit_length_eq [of b] by (simp add: take_bit_eq_mask)
  ultimately show ?thesis by (simp add: start_byte_payload_def)
qed

lemma decode_at_Start:
  assumes "state d = Start"
  shows "decode d b = Inr
     (case start_target b of
        Start \<Rightarrow> (Some (ucast b), d\<lparr>code := ucast b, to_deliver := Nothing\<rparr>)
      | Error \<Rightarrow> (Some replacement_char, d\<lparr>to_deliver := Nothing\<rparr>)
      | s \<Rightarrow> (None, d\<lparr>code := ucast (start_byte_payload b (class_of b)), state := s,
                       to_deliver := Nothing\<rparr>))"
proof (cases "start_target b = Start")
  case True
  then have "unat b \<le> 0x7f" by (simp add: start_target_ascii)
  then have "start_byte_payload b (class_of b) = b" by (rule payload_ascii)
  with True assms show ?thesis
    by (simp add: decode_def at_char_classes next_state_Start)
next
  case False
  with assms show ?thesis
    by (cases "start_target b")
       (simp_all add: decode_def at_char_classes next_state_Start)
qed

lemma decode_accept:
  assumes "state d \<noteq> Start" "state d \<noteq> Error" "accepts (state d) b"
  shows "decode d b = Inr
     (if cont_target (state d) = Start
      then Some (push_bit data_shift (code d) OR ucast (b AND data_mask)) else None,
      d\<lparr>code := push_bit data_shift (code d) OR ucast (b AND data_mask),
        state := cont_target (state d), to_deliver := Nothing\<rparr>)"
  using assms cont_target_not_Error [of "state d"]
  by (simp add: decode_def at_char_classes next_state_cont)

lemma decode_interrupt:
  assumes "state d \<noteq> Start" "state d \<noteq> Error" "\<not> accepts (state d) b"
  shows "decode d b = Inr (Some replacement_char,
     (case start_target b of
        Error \<Rightarrow> d\<lparr>state := Start, to_deliver := Deliver_error\<rparr>
      | Start \<Rightarrow> d\<lparr>code := ucast b, state := Start, to_deliver := Code_point\<rparr>
      | s \<Rightarrow> d\<lparr>code := ucast (start_byte_payload b (class_of b)), state := s,
               to_deliver := Nothing\<rparr>))"
proof (cases "start_target b = Start")
  case True
  then have "unat b \<le> 0x7f" by (simp add: start_target_ascii)
  then have "start_byte_payload b (class_of b) = b" by (rule payload_ascii)
  with True assms show ?thesis
    by (simp add: decode_def at_char_classes next_state_cont next_state_Start)
next
  case False
  with assms show ?thesis
    by (cases "start_target b")
       (simp_all add: decode_def at_char_classes next_state_cont next_state_Start)
qed

lemma decode_at_Error: "state d = Error \<Longrightarrow> decode d b = Inl Out_of_range"
  by (simp add: decode_def at_char_classes next_state_Error)


section \<open>The invariant of the decoder\<close>

lemma mod_sub:
  fixes n m q :: nat
  assumes "q * m \<le> n" "n < q * m + m"
  shows "n mod m = n - q * m"
proof -
  from assms(1) obtain r where r: "n = q * m + r" using le_Suc_ex by blast
  with assms(2) have "r < m" by simp
  with r show ?thesis by simp
qed

lemma mod64_cont: "0x80 \<le> (n::nat) \<Longrightarrow> n \<le> 0xbf \<Longrightarrow> n mod 64 = n - 0x80"
  using mod_sub [of 2 64 n] by simp

lemma start_payload_ok:
  assumes "start_target b \<noteq> Start" "start_target b \<noteq> Error"
  shows "code_ok (start_target b) (unat b mod 2 ^ (8 - unat (class_of b)))"
proof (cases b rule: class_cases)
  case lead2
  then show ?thesis using mod_sub [of 3 64 "unat b"] by (auto simp add: start_target_def)
next
  case lead3
  then show ?thesis using mod_sub [of 7 32 "unat b"] by (auto simp add: start_target_def)
next
  case lead4
  then show ?thesis using mod_sub [of 60 4 "unat b"] by (auto simp add: start_target_def)
qed (use assms in \<open>simp_all add: start_target_def\<close>)


lemma accept_ok:
  assumes "s \<noteq> Start" "s \<noteq> Error" "accepts s b" "code_ok s n"
  shows "code_ok (cont_target s) (n * 64 + unat b mod 64)"
proof (cases s)
  case Next1 then show ?thesis by simp
next
  case Next2 with assms(3,4) show ?thesis by (auto simp add: mod64_cont)
next
  case Next3 with assms(3,4) show ?thesis by (auto simp add: mod64_cont)
next
  case Next4 with assms(3,4) show ?thesis by (auto simp add: mod64_cont)
next
  case Next5 with assms(3,4) show ?thesis by (auto simp add: mod64_cont)
next
  case Next6 with assms(3,4) show ?thesis by (auto simp add: mod64_cont)
next
  case Next7 with assms(3,4) show ?thesis by (auto simp add: mod64_cont)
qed (use assms in simp_all)

lemma accept_scalar:
  assumes "accepts Next1 b" "code_ok Next1 n"
  shows "n * 64 + unat b mod 64 \<le> 0x10ffff
    \<and> (n * 64 + unat b mod 64 < 0xd800 \<or> 0xdfff < n * 64 + unat b mod 64)"
  using assms by (auto simp add: mod64_cont)

lemma code_ok_bound: "code_ok s n \<Longrightarrow> s \<noteq> Start \<Longrightarrow> n < 2 ^ 58"
  by (cases s) simp_all


lemma is_scalar_replacement: "is_scalar replacement_char"
  by (simp add: is_scalar_def replacement_char_def)

lemma decoder_inv_new: "decoder_inv new_decoder"
  by (simp add: decoder_inv_def new_decoder_def)

lemma decoder_inv_not_Error: "decoder_inv d \<Longrightarrow> state d \<noteq> Error"
  by (auto simp add: decoder_inv_def)

lemma start_payload_inv:
  assumes "start_target b \<noteq> Start" "start_target b \<noteq> Error"
  shows "decoder_inv (d\<lparr>code := ucast (start_byte_payload b (class_of b)),
           state := start_target b, to_deliver := Nothing\<rparr>)"
  using start_payload_ok [OF assms] by (simp add: decoder_inv_def payload_nat)

lemma decode_inv_Start:
  assumes "state d = Start"
  shows "\<exists>v d'. decode d b = Inr (v, d') \<and> decoder_inv d'
     \<and> (case v of None \<Rightarrow> to_deliver d' = Nothing | Some c \<Rightarrow> is_scalar c)"
proof (cases "start_target b = Start \<or> start_target b = Error")
  case True
  then show ?thesis
  proof
    assume s: "start_target b = Start"
    then have "unat b \<le> 0x7f" by (simp add: start_target_ascii)
    then have "is_scalar (ucast b)" by (simp add: is_scalar_def unat_ucast_byte)
    with s assms show ?thesis
      by (simp add: decode_at_Start decoder_inv_def)
  next
    assume "start_target b = Error"
    with assms show ?thesis
      by (simp add: decode_at_Start decoder_inv_def is_scalar_replacement)
  qed
next
  case False
  then have ne: "start_target b \<noteq> Start" "start_target b \<noteq> Error" by simp_all
  have "decode d b = Inr (None, d\<lparr>code := ucast (start_byte_payload b (class_of b)),
           state := start_target b, to_deliver := Nothing\<rparr>)"
    using ne by (cases "start_target b") (simp_all add: decode_at_Start [OF assms])
  then show ?thesis using start_payload_inv [OF ne, of d] by simp
qed

lemma decode_inv_accept:
  assumes "decoder_inv d" "state d \<noteq> Start" "accepts (state d) b"
  shows "\<exists>v d'. decode d b = Inr (v, d') \<and> decoder_inv d'
     \<and> (case v of None \<Rightarrow> to_deliver d' = Nothing | Some c \<Rightarrow> is_scalar c)"
proof -
  let ?c = "push_bit data_shift (code d) OR ucast (b AND data_mask)"
  from assms(1) have ne: "state d \<noteq> Error" by (rule decoder_inv_not_Error)
  from assms(1) have ok: "code_ok (state d) (unat (code d))" by (simp add: decoder_inv_def)
  then have "unat (code d) < 2 ^ 58" using assms(2) by (rule code_ok_bound)
  then have u: "unat ?c = unat (code d) * 64 + unat b mod 64" by (rule acc_step)
  have ok': "code_ok (cont_target (state d)) (unat ?c)"
    unfolding u using assms(2) ne assms(3) ok by (rule accept_ok)
  have sc: "is_scalar ?c" if "cont_target (state d) = Start"
  proof -
    from that assms(2) ne have "state d = Next1" by (cases "state d") simp_all
    with assms(3) ok show ?thesis
      unfolding is_scalar_def u using accept_scalar [of b "unat (code d)"] by simp
  qed
  have "cont_target (state d) \<noteq> Start \<or> cont_target (state d) = Start" by simp
  then show ?thesis
    using ok' sc by (auto simp add: decode_accept [OF assms(2) ne assms(3)] decoder_inv_def)
qed

lemma decode_inv_interrupt:
  assumes "decoder_inv d" "state d \<noteq> Start" "\<not> accepts (state d) b"
  shows "\<exists>v d'. decode d b = Inr (v, d') \<and> decoder_inv d'
     \<and> (case v of None \<Rightarrow> to_deliver d' = Nothing | Some c \<Rightarrow> is_scalar c)"
proof -
  from assms(1) have ne: "state d \<noteq> Error" by (rule decoder_inv_not_Error)
  note dec = decode_interrupt [OF assms(2) ne assms(3)]
  show ?thesis
  proof (cases "start_target b = Start \<or> start_target b = Error")
    case True
    then show ?thesis
    proof
      assume s: "start_target b = Start"
      then have "unat b \<le> 0x7f" by (simp add: start_target_ascii)
      with s show ?thesis
        by (simp add: dec decoder_inv_def is_scalar_replacement unat_ucast_byte)
    next
      assume "start_target b = Error"
      then show ?thesis
        by (simp add: dec decoder_inv_def is_scalar_replacement)
    qed
  next
    case False
    then have n2: "start_target b \<noteq> Start" "start_target b \<noteq> Error" by simp_all
    have "decode d b = Inr (Some replacement_char,
         d\<lparr>code := ucast (start_byte_payload b (class_of b)),
           state := start_target b, to_deliver := Nothing\<rparr>)"
      using n2 by (cases "start_target b") (simp_all add: dec)
    then show ?thesis
      using start_payload_inv [OF n2, of d] by (simp add: is_scalar_replacement)
  qed
qed

lemma decode_inv:
  assumes "decoder_inv d"
  shows "\<exists>v d'. decode d b = Inr (v, d') \<and> decoder_inv d'
     \<and> (case v of None \<Rightarrow> to_deliver d' = Nothing | Some c \<Rightarrow> is_scalar c)"
proof (cases "state d = Start")
  case True
  then show ?thesis by (rule decode_inv_Start)
next
  case False
  show ?thesis
  proof (cases "accepts (state d) b")
    case True
    with assms False show ?thesis by (rule decode_inv_accept)
  next
    case F: False
    with assms False show ?thesis by (rule decode_inv_interrupt)
  qed
qed

lemma fetch_inv:
  assumes "decoder_inv d" "fetch d = (v, d')"
  shows "decoder_inv d' \<and> to_deliver d' = Nothing
    \<and> (v = None \<or> v = Some replacement_char \<or> (\<exists>c. v = Some c \<and> unat c \<le> 0x7f))"
  using assms by (auto simp add: fetch_def decoder_inv_def split: if_splits)

lemma reachable_inv: "reachable d \<Longrightarrow> decoder_inv d"
proof (induction rule: reachable.induct)
  case reachable_new
  show ?case by (rule decoder_inv_new)
next
  case (reachable_decode d b v d')
  with decode_inv [of d b] show ?case by auto
next
  case (reachable_fetch d v d')
  with fetch_inv [of d v d'] show ?case by auto
qed


section \<open>The operations of the decoder\<close>

lemma check_last_error_calls_eq:
  "check_last_error_calls n d = (replicate n (check_last_error d), d)"
  by (induction n) simp_all

text \<open>
  Claim C6. \<open>check_last_error\<close> only reads the decoder. It returns U+FFFD (0xfffd)
  exactly when the state is not \<open>Start\<close>, and nothing exactly when it is; any number of
  calls in a row return that same result each time and leave the decoder as it was. This
  holds for every decoder, reachable or not. After the single byte C2 the result is U+FFFD;
  on a fresh decoder it is nothing.
\<close>

theorem check_last_error_pure:
  "check_last_error d = (if state d = Start then None else Some 0xfffd)
   \<and> (check_last_error d = Some 0xfffd \<longleftrightarrow> state d \<noteq> Start)
   \<and> (check_last_error d = None \<longleftrightarrow> state d = Start)
   \<and> check_last_error_calls n d
       = (replicate n (if state d = Start then None else Some 0xfffd), d)
   \<and> decode new_decoder 0xc2
       = Inr (None, \<lparr>code = 2, state = Next1, to_deliver = Nothing\<rparr>)
   \<and> check_last_error \<lparr>code = 2, state = Next1, to_deliver = Nothing\<rparr> = Some 0xfffd
   \<and> check_last_error_calls 3 \<lparr>code = 2, state = Next1, to_deliver = Nothing\<rparr>
       = ([Some 0xfffd, Some 0xfffd, Some 0xfffd],
          \<lparr>code = 2, state = Next1, to_deliver = Nothing\<rparr>)
   \<and> check_last_error new_decoder = None"
proof -
  have a: "check_last_error d = (if state d = Start then None else Some 0xfffd)"
    by (simp add: check_last_error_def replacement_char_def)
  have b: "check_last_error_calls n d
       = (replicate n (if state d = Start then None else Some 0xfffd), d)"
    by (simp only: check_last_error_calls_eq a)
  have c: "decode new_decoder 0xc2
       = Inr (None, \<lparr>code = 2, state = Next1, to_deliver = Nothing\<rparr>)"
    by code_simp
  have d: "check_last_error_calls 3 \<lparr>code = 2, state = Next1, to_deliver = Nothing\<rparr>
       = ([Some 0xfffd, Some 0xfffd, Some 0xfffd],
          \<lparr>code = 2, state = Next1, to_deliver = Nothing\<rparr>)"
    by code_simp
  have e: "check_last_error new_decoder = None"
    by (simp add: check_last_error_def new_decoder_def)
  have f: "check_last_error \<lparr>code = 2, state = Next1, to_deliver = Nothing\<rparr> = Some 0xfffd"
    by (simp add: check_last_error_def replacement_char_def)
  from a have a1: "check_last_error d = Some 0xfffd \<longleftrightarrow> state d \<noteq> Start" by simp
  from a have a2: "check_last_error d = None \<longleftrightarrow> state d = Start" by simp
  from a a1 a2 b c f d e show ?thesis by (intro conjI)
qed

text \<open>
  Claim C7. \<open>fetch\<close> returns what is pending (the code point in \<open>code\<close>, or U+FFFD,
  0xfffd) and clears it; with nothing pending it returns nothing. A second \<open>fetch\<close> right
  after a first one returns nothing and changes nothing, so at most one \<open>fetch\<close> after a
  \<open>decode\<close> returns a value. On the bytes C2, 20: \<open>decode\<close> of C2 returns nothing,
  \<open>decode\<close> of 20 returns U+FFFD, the following \<open>fetch\<close> returns 0x20, and the
  \<open>fetch\<close> after that returns nothing.
\<close>

theorem fetch_drains_pending:
  "fetch d =
     (case to_deliver d of
        Nothing \<Rightarrow> None
      | Code_point \<Rightarrow> Some (code d)
      | Deliver_error \<Rightarrow> Some 0xfffd,
      d\<lparr>to_deliver := Nothing\<rparr>)
   \<and> fetch (snd (fetch d)) = (None, snd (fetch d))
   \<and> decode new_decoder 0xc2
       = Inr (None, \<lparr>code = 2, state = Next1, to_deliver = Nothing\<rparr>)
   \<and> decode \<lparr>code = 2, state = Next1, to_deliver = Nothing\<rparr> 0x20
       = Inr (Some 0xfffd, \<lparr>code = 0x20, state = Start, to_deliver = Code_point\<rparr>)
   \<and> fetch \<lparr>code = 0x20, state = Start, to_deliver = Code_point\<rparr>
       = (Some 0x20, \<lparr>code = 0x20, state = Start, to_deliver = Nothing\<rparr>)
   \<and> fetch \<lparr>code = 0x20, state = Start, to_deliver = Nothing\<rparr>
       = (None, \<lparr>code = 0x20, state = Start, to_deliver = Nothing\<rparr>)
   \<and> fetch \<lparr>code = 4, state = Start, to_deliver = Deliver_error\<rparr>
       = (Some 0xfffd, \<lparr>code = 4, state = Start, to_deliver = Nothing\<rparr>)"
proof -
  have a: "fetch d =
     (case to_deliver d of
        Nothing \<Rightarrow> None
      | Code_point \<Rightarrow> Some (code d)
      | Deliver_error \<Rightarrow> Some 0xfffd,
      d\<lparr>to_deliver := Nothing\<rparr>)"
    by (cases "to_deliver d") (simp_all add: fetch_def replacement_char_def)
  have b: "fetch (snd (fetch d)) = (None, snd (fetch d))"
    by (simp add: fetch_def)
  have c: "decode new_decoder 0xc2
       = Inr (None, \<lparr>code = 2, state = Next1, to_deliver = Nothing\<rparr>)"
    by code_simp
  have d: "decode \<lparr>code = 2, state = Next1, to_deliver = Nothing\<rparr> 0x20
       = Inr (Some 0xfffd, \<lparr>code = 0x20, state = Start, to_deliver = Code_point\<rparr>)"
    by code_simp
  have e: "fetch \<lparr>code = 0x20, state = Start, to_deliver = Code_point\<rparr>
       = (Some 0x20, \<lparr>code = 0x20, state = Start, to_deliver = Nothing\<rparr>)"
    by (simp add: fetch_def)
  have f: "fetch \<lparr>code = 0x20, state = Start, to_deliver = Nothing\<rparr>
       = (None, \<lparr>code = 0x20, state = Start, to_deliver = Nothing\<rparr>)"
    by (simp add: fetch_def)
  have g: "fetch \<lparr>code = 4, state = Start, to_deliver = Deliver_error\<rparr>
       = (Some 0xfffd, \<lparr>code = 4, state = Start, to_deliver = Nothing\<rparr>)"
    by (simp add: fetch_def replacement_char_def)
  from a b c d e f g show ?thesis by (intro conjI)
qed

lemma class_of_0: "class_of b = 0 \<longleftrightarrow> b \<le> 0x7f"
  by (cases b rule: class_cases) (simp_all add: word_le_nat_alt)

lemma class_of_bad: "class_of b \<in> {1, 7, 8, 9} \<longleftrightarrow> (0x80 \<le> b \<and> b \<le> 0xc1) \<or> 0xf5 \<le> b"
  by (cases b rule: class_cases) (simp_all add: word_le_nat_alt)

lemma start_target_Start: "start_target b = Start \<longleftrightarrow> class_of b = 0"
  by (cases b rule: class_cases) (simp_all add: start_target_def)

lemma start_target_Error: "start_target b = Error \<longleftrightarrow> class_of b \<in> {1, 7, 8, 9}"
  by (cases b rule: class_cases) (simp_all add: start_target_def)

text \<open>
  Claim C8. In state \<open>Start\<close>, \<open>decode\<close> of a byte of class 0 (exactly the bytes
  00..7F) returns the byte's value; of a byte of class 1, 7, 8 or 9 (exactly 80..C1 and
  F5..FF) it returns U+FFFD (0xfffd) and the state stays \<open>Start\<close>; of any other byte it
  returns nothing, stores the payload \<open>b & (0xff >> class)\<close> and moves to the state of the
  table. These three cases are all there is.
\<close>

theorem decode_single_byte_at_Start:
  assumes "state d = Start"
  shows "(class_of b = 0 \<longleftrightarrow> b \<le> 0x7f)
    \<and> (class_of b \<in> {1, 7, 8, 9} \<longleftrightarrow> (0x80 \<le> b \<and> b \<le> 0xc1) \<or> 0xf5 \<le> b)
    \<and> at_ix char_classes (unat b) = Inr (class_of b)
    \<and> next_state Start (class_of b) = Inr (start_target b)
    \<and> decode d b =
       (if class_of b = 0
        then Inr (Some (ucast b), d\<lparr>code := ucast b, to_deliver := Nothing\<rparr>)
        else if class_of b \<in> {1, 7, 8, 9}
        then Inr (Some 0xfffd, d\<lparr>to_deliver := Nothing\<rparr>)
        else Inr (None, d\<lparr>code := ucast (b AND drop_bit (unat (class_of b)) 0xff),
                          state := start_target b, to_deliver := Nothing\<rparr>))"
proof -
  have "decode d b =
       (if class_of b = 0
        then Inr (Some (ucast b), d\<lparr>code := ucast b, to_deliver := Nothing\<rparr>)
        else if class_of b \<in> {1, 7, 8, 9}
        then Inr (Some 0xfffd, d\<lparr>to_deliver := Nothing\<rparr>)
        else Inr (None, d\<lparr>code := ucast (b AND drop_bit (unat (class_of b)) 0xff),
                          state := start_target b, to_deliver := Nothing\<rparr>))"
  proof (cases "start_target b")
    case Start
    then show ?thesis using decode_at_Start [OF assms, of b] start_target_Start [of b] by simp
  next
    case Error
    then show ?thesis using decode_at_Start [OF assms, of b] start_target_Start [of b]
      start_target_Error [of b] by (simp add: replacement_char_def)
  qed (use decode_at_Start [OF assms, of b] start_target_Start [of b]
      start_target_Error [of b] in \<open>simp_all add: start_byte_payload_def\<close>)
  then show ?thesis
    using class_of_0 class_of_bad at_char_classes [of b] next_state_Start [of b] by blast
qed

theorem decode_single_byte_at_Start_witness:
  "state new_decoder = Start
   \<and> decode new_decoder 0x41 = Inr (Some 0x41, \<lparr>code = 0x41, state = Start, to_deliver = Nothing\<rparr>)
   \<and> decode new_decoder 0xbf = Inr (Some 0xfffd, \<lparr>code = 0, state = Start, to_deliver = Nothing\<rparr>)
   \<and> decode new_decoder 0xc0 = Inr (Some 0xfffd, \<lparr>code = 0, state = Start, to_deliver = Nothing\<rparr>)
   \<and> decode new_decoder 0xf5 = Inr (Some 0xfffd, \<lparr>code = 0, state = Start, to_deliver = Nothing\<rparr>)
   \<and> decode new_decoder 0xe2 = Inr (None, \<lparr>code = 2, state = Next2, to_deliver = Nothing\<rparr>)
   \<and> decode new_decoder 0xf4 = Inr (None, \<lparr>code = 4, state = Next7, to_deliver = Nothing\<rparr>)"
proof -
  have s: "state new_decoder = Start" by (simp add: new_decoder_def)
  have c: "class_of 0x41 = 0" "class_of 0xbf = 7" "class_of 0xe2 = 3" "class_of 0xc0 = 8"
    "class_of 0xf5 = 8" "class_of 0xf4 = 5"
    by (simp_all add: class_of_range class_by_range_def)
  show ?thesis
    using s decode_single_byte_at_Start [OF s, of "0x41"]
      decode_single_byte_at_Start [OF s, of "0xbf"]
      decode_single_byte_at_Start [OF s, of "0xc0"]
      decode_single_byte_at_Start [OF s, of "0xf5"]
      decode_single_byte_at_Start [OF s, of "0xe2"]
      decode_single_byte_at_Start [OF s, of "0xf4"] c
    by (simp add: new_decoder_def start_target_def)
qed

lemma interrupted_iff:
  assumes "state d \<noteq> Start" "next_state (state d) (class_of b) = Inr Error"
  shows "state d \<noteq> Error \<and> \<not> accepts (state d) b"
proof -
  from assms(2) have ne: "state d \<noteq> Error" by (auto simp add: next_state_Error)
  with assms show ?thesis
    using next_state_cont [of "state d" b] cont_target_not_Error [of "state d"]
    by (auto split: if_splits)
qed

text \<open>
  Claim C4. When the state \<open>s\<close> is not \<open>Start\<close> and the table sends \<open>s\<close> and the
  byte's class to \<open>Error\<close>, \<open>decode\<close> returns U+FFFD (0xfffd) and looks the class up
  again from \<open>Start\<close>: on \<open>Error\<close> the state becomes \<open>Start\<close> with a second U+FFFD
  pending; on \<open>Start\<close> the byte itself (its payload) is stored and left pending as a code
  point; otherwise the state becomes that state, the accumulator the start-byte payload
  \<open>b & (0xff >> class)\<close>, and nothing is pending. What is pending is what the next
  \<open>fetch\<close> returns.
\<close>

theorem decode_interrupted:
  assumes "state d \<noteq> Start" and "next_state (state d) (class_of b) = Inr Error"
  shows "at_ix char_classes (unat b) = Inr (class_of b)
    \<and> (\<exists>s d'. next_state Start (class_of b) = Inr s
         \<and> decode d b = Inr (Some 0xfffd, d')
         \<and> d' =
             (case s of
                Error \<Rightarrow> d\<lparr>state := Start, to_deliver := Deliver_error\<rparr>
              | Start \<Rightarrow> d\<lparr>code := ucast b, state := Start, to_deliver := Code_point\<rparr>
              | _ \<Rightarrow> d\<lparr>code := ucast (b AND drop_bit (unat (class_of b)) 0xff), state := s,
                       to_deliver := Nothing\<rparr>)
         \<and> fst (fetch d') =
             (case s of Error \<Rightarrow> Some 0xfffd | Start \<Rightarrow> Some (ucast b) | _ \<Rightarrow> None)
         \<and> (s = Start \<longrightarrow> b AND drop_bit (unat (class_of b)) 0xff = b))"
proof -
  from assms have i: "state d \<noteq> Error" "\<not> accepts (state d) b"
    using interrupted_iff by blast+
  have "start_target b = Start \<longrightarrow> start_byte_payload b (class_of b) = b"
    by (simp add: start_target_ascii payload_ascii)
  then show ?thesis
    using decode_interrupt [OF assms(1) i] next_state_Start [of b] at_char_classes [of b]
    by (cases "start_target b")
       (simp_all add: replacement_char_def fetch_def start_byte_payload_def)
qed

theorem decode_interrupted_witness:
  "state \<lparr>code = 4, state = Next7, to_deliver = Nothing\<rparr> \<noteq> Start
   \<and> next_state (state \<lparr>code = 4, state = Next7, to_deliver = Nothing\<rparr>) (class_of 0x90) = Inr Error
   \<and> next_state Start (class_of 0x90) = Inr Error
   \<and> decode \<lparr>code = 4, state = Next7, to_deliver = Nothing\<rparr> 0x90
       = Inr (Some 0xfffd, \<lparr>code = 4, state = Start, to_deliver = Deliver_error\<rparr>)
   \<and> state \<lparr>code = 2, state = Next1, to_deliver = Nothing\<rparr> \<noteq> Start
   \<and> next_state (state \<lparr>code = 2, state = Next1, to_deliver = Nothing\<rparr>) (class_of 0x20) = Inr Error
   \<and> next_state Start (class_of 0x20) = Inr Start
   \<and> decode \<lparr>code = 2, state = Next1, to_deliver = Nothing\<rparr> 0x20
       = Inr (Some 0xfffd, \<lparr>code = 0x20, state = Start, to_deliver = Code_point\<rparr>)
   \<and> next_state (state \<lparr>code = 2, state = Next1, to_deliver = Nothing\<rparr>) (class_of 0xe2) = Inr Error
   \<and> next_state Start (class_of 0xe2) = Inr Next2
   \<and> decode \<lparr>code = 2, state = Next1, to_deliver = Nothing\<rparr> 0xe2
       = Inr (Some 0xfffd, \<lparr>code = 2, state = Next2, to_deliver = Nothing\<rparr>)
   \<and> next_state (state \<lparr>code = 2, state = Next1, to_deliver = Nothing\<rparr>) (class_of 0xf4) = Inr Error
   \<and> next_state Start (class_of 0xf4) = Inr Next7
   \<and> decode \<lparr>code = 2, state = Next1, to_deliver = Nothing\<rparr> 0xf4
       = Inr (Some 0xfffd, \<lparr>code = 4, state = Next7, to_deliver = Nothing\<rparr>)"
proof -
  let ?d = "\<lparr>code = 4, state = Next7, to_deliver = Nothing\<rparr>"
  let ?e = "\<lparr>code = 2, state = Next1, to_deliver = Nothing\<rparr>"
  have c: "class_of 0x90 = 9" "class_of 0x20 = 0" "class_of 0xe2 = 3" "class_of 0xf4 = 5"
    by (simp_all add: class_of_range class_by_range_def)
  have s: "state ?d \<noteq> Start" "state ?e \<noteq> Start" by simp_all
  have n: "next_state (state ?d) (class_of 0x90) = Inr Error"
    "next_state (state ?e) (class_of 0x20) = Inr Error"
    "next_state (state ?e) (class_of 0xe2) = Inr Error"
    "next_state (state ?e) (class_of 0xf4) = Inr Error"
    by (simp_all add: c next_state_def at_ix_def fsm_def num_classes_def)
  have n0: "next_state Start (class_of 0x90) = Inr Error"
    "next_state Start (class_of 0x20) = Inr Start"
    "next_state Start (class_of 0xe2) = Inr Next2"
    "next_state Start (class_of 0xf4) = Inr Next7"
    by (simp_all add: c next_state_def at_ix_def fsm_def num_classes_def)
  have a: "decode ?d 0x90 = Inr (Some 0xfffd, \<lparr>code = 4, state = Start, to_deliver = Deliver_error\<rparr>)"
    using decode_interrupted [OF s(1) n(1)] n0(1) by auto
  have b: "decode ?e 0x20 = Inr (Some 0xfffd, \<lparr>code = 0x20, state = Start, to_deliver = Code_point\<rparr>)"
    using decode_interrupted [OF s(2) n(2)] n0(2) by auto
  have e: "decode ?e 0xe2 = Inr (Some 0xfffd, \<lparr>code = 2, state = Next2, to_deliver = Nothing\<rparr>)"
    using decode_interrupted [OF s(2) n(3)] n0(3) c(3) by auto
  have f: "decode ?e 0xf4 = Inr (Some 0xfffd, \<lparr>code = 4, state = Next7, to_deliver = Nothing\<rparr>)"
    using decode_interrupted [OF s(2) n(4)] n0(4) c(4) by auto
  from s n n0 a b e f show ?thesis by (intro conjI)
qed


section \<open>The view against the reference protocol\<close>

declare collect.simps [simp del]

lemma decode_None_to_deliver:
  assumes "decode d b = Inr (None, d1)"
  shows "to_deliver d1 = Nothing"
proof -
  from assms have ne: "state d \<noteq> Error" by (auto simp add: decode_at_Error)
  show ?thesis
  proof (cases "state d = Start")
    case True
    with assms show ?thesis
      by (cases "start_target b") (auto simp add: decode_at_Start)
  next
    case False
    with assms ne show ?thesis
      by (cases "accepts (state d) b")
         (auto simp add: decode_accept decode_interrupt split: if_splits)
  qed
qed

lemma fetch_Nothing: "to_deliver d = Nothing \<Longrightarrow> fetch d = (None, d)"
  by (simp add: fetch_def)

text \<open>The elements the view yields when \<open>iterator::decode\<close> starts at a decoder and a position.\<close>

definition view_from :: "decoder \<Rightarrow> byte list \<Rightarrow> codepoint \<Rightarrow> view_exn + codepoint list" where
  "view_from d bs c0 =
    (case decode_it \<lparr>it = bs, decoder_it = d, code_it = c0, has_last_error = False\<rparr> of
       Inl e \<Rightarrow> Inl e
     | Inr i \<Rightarrow> collect i)"

lemma view_from_Nil: "view_from d [] c0 = Inr (opt_list (check_last_error d))"
  by (cases "check_last_error d")
     (simp_all add: view_from_def decode_it_def collect.simps [of "\<lparr>it = [], decoder_it = d, code_it = _, has_last_error = _\<rparr>"] at_end_def incr_def deref_def)

lemma view_from_fail:
  "decode d b = Inl e \<Longrightarrow> view_from d (b # bs) c0 = Inl (Decoder_exn e)"
  by (simp add: view_from_def decode_it_def)

lemma view_from_skip:
  "decode d b = Inr (None, d1) \<Longrightarrow> view_from d (b # bs) c0 = view_from d1 bs c0"
  by (simp add: view_from_def decode_it_def Let_def split: sum.splits prod.splits)

lemma view_from_value:
  assumes "decode d b = Inr (Some v, d1)" "fetch d1 = (f, d2)"
  shows "view_from d (b # bs) c0 =
     map_sum id (\<lambda>r. v # opt_list f @ r) (view_from d2 bs (case f of None \<Rightarrow> v | Some w \<Rightarrow> w))"
proof -
  let ?i1 = "\<lparr>it = b # bs, decoder_it = d1, code_it = v, has_last_error = False\<rparr>"
  have d2: "to_deliver d2 = Nothing" using assms(2) by (rule fetch_to_deliver)
  have v: "view_from d (b # bs) c0 = collect ?i1"
    using assms(1) by (simp add: view_from_def decode_it_def)
  show ?thesis
  proof (cases f)
    case None
    have "incr ?i1 = decode_it \<lparr>it = bs, decoder_it = d2, code_it = v, has_last_error = False\<rparr>"
      using assms(2) None by (simp add: incr_def try_decode_one_code_point_def)
    then have "collect ?i1 = map_sum id ((#) v) (view_from d2 bs v)"
      by (simp add: collect.simps [of ?i1] at_end_def deref_def view_from_def
          split: sum.splits)
    with v None show ?thesis by simp
  next
    case (Some w)
    let ?i2 = "\<lparr>it = b # bs, decoder_it = d2, code_it = w, has_last_error = False\<rparr>"
    have "incr ?i1 = Inr ?i2"
      using assms(2) Some by (simp add: incr_def try_decode_one_code_point_def)
    then have c1: "collect ?i1 = map_sum id ((#) v) (collect ?i2)"
      by (simp add: collect.simps [of ?i1] at_end_def deref_def)
    have "incr ?i2 = decode_it \<lparr>it = bs, decoder_it = d2, code_it = w, has_last_error = False\<rparr>"
      using fetch_Nothing [OF d2] by (simp add: incr_def try_decode_one_code_point_def)
    then have "collect ?i2 = map_sum id ((#) w) (view_from d2 bs w)"
      by (simp add: collect.simps [of ?i2] at_end_def deref_def view_from_def
          split: sum.splits)
    with c1 v Some show ?thesis by (simp add: sum.map_comp comp_def id_def)
  qed
qed

lemma view_from_reference:
  "view_from d bs c0 = map_sum Decoder_exn id (reference_drive d bs)"
proof (induction bs arbitrary: d c0)
  case Nil
  show ?case by (simp add: view_from_Nil)
next
  case (Cons b bs)
  show ?case
  proof (cases "decode d b")
    case (Inl e)
    then show ?thesis by (simp add: view_from_fail)
  next
    case (Inr r)
    obtain v d1 where r: "r = (v, d1)" by (cases r)
    obtain f d2 where f: "fetch d1 = (f, d2)" by (cases "fetch d1")
    show ?thesis
    proof (cases v)
      case None
      with Inr r have dec: "decode d b = Inr (None, d1)" by simp
      then have "to_deliver d1 = Nothing" by (rule decode_None_to_deliver)
      then have "fetch d1 = (None, d1)" by (rule fetch_Nothing)
      with dec show ?thesis
        by (simp add: view_from_skip Cons.IH sum.map_comp comp_def id_def)
    next
      case (Some x)
      with Inr r have dec: "decode d b = Inr (Some x, d1)" by simp
      show ?thesis
        using dec f
        by (simp add: view_from_value [OF dec f] Cons.IH sum.map_comp comp_def id_def)
    qed
  qed
qed

lemma decode_view_reference:
  "decode_view bs = map_sum Decoder_exn id (reference_drive new_decoder bs)"
  using view_from_reference [of new_decoder bs 0]
  by (simp add: decode_view_def begin_it_def view_from_def)


lemma emitted_simps:
  "emitted [] = []"
  "emitted (Decoded None # es) = emitted es"
  "emitted (Decoded (Some c) # Fetched f # es) = c # opt_list f @ emitted es"
  "emitted [Last_error v] = opt_list v"
  by (cases f; cases v; simp add: emitted_def List.map_filter_simps)+

lemma drive_Nil: "drive d [] = Inr (opt_list (check_last_error d))"
  by (simp add: drive_def emitted_simps)

lemma drive_Cons:
  "drive d (b # bs) =
    (case decode d b of
       Inl e \<Rightarrow> Inl e
     | Inr (None, d1) \<Rightarrow> drive d1 bs
     | Inr (Some c, d1) \<Rightarrow>
         (case fetch d1 of (f, d2) \<Rightarrow> map_sum id (\<lambda>r. c # opt_list f @ r) (drive d2 bs)))"
  by (simp add: drive_def emitted_simps sum.map_comp comp_def id_def
      split: sum.splits option.splits prod.splits)

lemma reference_drive_eq: "reference_drive d bs = drive d bs"
proof (induction bs arbitrary: d)
  case Nil
  show ?case by (simp add: drive_Nil)
next
  case (Cons b bs)
  show ?case
  proof (cases "decode d b")
    case (Inl e)
    then show ?thesis by (simp add: drive_Cons)
  next
    case (Inr r)
    obtain v d1 where r: "r = (v, d1)" by (cases r)
    show ?thesis
    proof (cases v)
      case None
      with Inr r have dec: "decode d b = Inr (None, d1)" by simp
      then have "fetch d1 = (None, d1)"
        using decode_None_to_deliver fetch_Nothing by blast
      moreover have "map_sum (\<lambda>x. x) ((@) []) (drive d1 bs) = drive d1 bs"
        by (cases "drive d1 bs") simp_all
      ultimately show ?thesis using dec by (simp add: drive_Cons Cons.IH id_def)
    next
      case (Some c)
      with Inr r show ?thesis
        by (simp add: drive_Cons Cons.IH split: prod.splits)
    qed
  qed
qed

lemma is_scalar_ascii: "unat c \<le> 0x7f \<Longrightarrow> is_scalar c"
  by (simp add: is_scalar_def)

lemma drive_scalar:
  "decoder_inv d \<Longrightarrow> \<exists>cs. drive d bs = Inr cs \<and> list_all is_scalar cs"
proof (induction bs arbitrary: d)
  case Nil
  then show ?case
    by (simp add: drive_Nil check_last_error_def is_scalar_replacement)
next
  case (Cons b bs)
  from decode_inv [OF Cons.prems, of b] obtain v d1 where
    dec: "decode d b = Inr (v, d1)" and inv1: "decoder_inv d1"
    and val: "case v of None \<Rightarrow> to_deliver d1 = Nothing | Some c \<Rightarrow> is_scalar c"
    by blast
  show ?case
  proof (cases v)
    case None
    with dec Cons.IH [OF inv1] show ?thesis by (simp add: drive_Cons)
  next
    case (Some c)
    obtain f d2 where f: "fetch d1 = (f, d2)" by (cases "fetch d1")
    from fetch_inv [OF inv1 f] have inv2: "decoder_inv d2"
      and fv: "f = None \<or> f = Some replacement_char \<or> (\<exists>c. f = Some c \<and> unat c \<le> 0x7f)"
      by simp_all
    from fv have "list_all is_scalar (opt_list f)"
      by (auto simp add: is_scalar_replacement is_scalar_ascii)
    moreover from Cons.IH [OF inv2] obtain cs where "drive d2 bs = Inr cs" "list_all is_scalar cs"
      by blast
    ultimately show ?thesis using dec Some f val by (simp add: drive_Cons)
  qed
qed


section \<open>Safety and output range\<close>

text \<open>
  Claim C3. For every byte range, traversing \<open>decode_view\<close> yields the sequence of the
  reference driving protocol on a fresh decoder (for each byte \<open>decode\<close>, its value if
  any, then the value of \<open>fetch\<close> if any; at the end the value of
  \<open>check_last_error\<close> if any), and neither raises. So the second code point of a byte
  with two outputs is never lost, as on the bytes C2, 20. An iterator equals the end
  sentinel exactly when the byte iterator is at its sentinel and \<open>has_last_error\<close> is
  false.
\<close>

theorem decode_view_refines_reference:
  "decode_view bs = map_sum Decoder_exn id (reference_drive new_decoder bs)
   \<and> (\<exists>cs. reference_drive new_decoder bs = Inr cs \<and> decode_view bs = Inr cs)
   \<and> (at_end i \<longleftrightarrow> it i = [] \<and> \<not> has_last_error i)
   \<and> reference_drive new_decoder [0xc2, 0x20] = Inr [0xfffd, 0x20]
   \<and> decode_view [0xc2, 0x20] = Inr [0xfffd, 0x20]"
proof -
  have eq: "decode_view bs = map_sum Decoder_exn id (reference_drive new_decoder bs)"
    by (rule decode_view_reference)
  from drive_scalar [OF decoder_inv_new, of bs] obtain cs where
    "reference_drive new_decoder bs = Inr cs" by (auto simp add: reference_drive_eq)
  with eq have ex: "\<exists>cs. reference_drive new_decoder bs = Inr cs \<and> decode_view bs = Inr cs"
    by simp
  have r: "reference_drive new_decoder [0xc2, 0x20] = Inr [0xfffd, 0x20]"
    by code_simp
  then have v: "decode_view [0xc2, 0x20] = Inr [0xfffd, 0x20]"
    by (simp add: decode_view_reference)
  from eq ex r v show ?thesis by (simp add: at_end_def)
qed

text \<open>
  Claim C5. In every decoder state reachable from a fresh decoder, every value that
  \<open>decode\<close>, \<open>fetch\<close> or \<open>check_last_error\<close> returns is a Unicode scalar value: at most
  U+10FFFF and outside U+D800..U+DFFF. Hence for every byte sequence the driven decoder and
  \<open>decode_view\<close> return, without raising, a list of scalar values.
\<close>

theorem outputs_are_scalar_values:
  assumes "reachable d"
  shows "(\<forall>b v d'. decode d b = Inr (Some v, d') \<longrightarrow> is_scalar v)
    \<and> (\<forall>v d'. fetch d = (Some v, d') \<longrightarrow> is_scalar v)
    \<and> (\<forall>v. check_last_error d = Some v \<longrightarrow> is_scalar v)
    \<and> (\<exists>cs. drive new_decoder bs = Inr cs \<and> list_all is_scalar cs)
    \<and> (\<exists>cs. decode_view bs = Inr cs \<and> list_all is_scalar cs)"
proof -
  from assms have inv: "decoder_inv d" by (rule reachable_inv)
  have a: "\<forall>b v d'. decode d b = Inr (Some v, d') \<longrightarrow> is_scalar v"
  proof (intro allI impI)
    fix b v d'
    assume "decode d b = Inr (Some v, d')"
    with decode_inv [OF inv, of b] show "is_scalar v" by auto
  qed
  have b: "\<forall>v d'. fetch d = (Some v, d') \<longrightarrow> is_scalar v"
    using fetch_inv [OF inv] by (auto simp add: is_scalar_replacement is_scalar_ascii)
  have c: "\<forall>v. check_last_error d = Some v \<longrightarrow> is_scalar v"
    by (simp add: check_last_error_def is_scalar_replacement)
  from drive_scalar [OF decoder_inv_new, of bs] obtain cs where
    cs: "drive new_decoder bs = Inr cs" "list_all is_scalar cs" by blast
  then have "decode_view bs = Inr cs"
    by (simp add: decode_view_reference reference_drive_eq)
  with cs a b c show ?thesis by blast
qed

theorem outputs_are_scalar_values_witness:
  "reachable new_decoder
   \<and> decode new_decoder 0x41 = Inr (Some 0x41, \<lparr>code = 0x41, state = Start, to_deliver = Nothing\<rparr>)
   \<and> is_scalar 0x41
   \<and> (\<exists>cs. decode_view [0xed, 0xa0, 0x80] = Inr cs \<and> list_all is_scalar cs)"
proof -
  have d: "decode new_decoder 0x41
      = Inr (Some 0x41, \<lparr>code = 0x41, state = Start, to_deliver = Nothing\<rparr>)"
    by code_simp
  show ?thesis
    using outputs_are_scalar_values [OF reachable_new, of "[0xed, 0xa0, 0x80]"] d reachable_new
    by blast
qed

lemma length_fsm: "length fsm = 96"
  by (simp add: fsm_def)

text \<open>
  Claim C9. In every reachable decoder state and for every byte, \<open>decode\<close> returns (it
  does not raise): the stored state is not \<open>Error\<close>, the class of the byte is below 12, and
  the index into the 96-entry transition table is in range, from the stored state and from
  \<open>Start\<close>. \<open>fetch\<close> and \<open>check_last_error\<close> make no lookup and cannot raise.
\<close>

theorem decode_never_fails:
  assumes "reachable d"
  shows "state d \<noteq> Error
    \<and> at_ix char_classes (unat b) = Inr (class_of b)
    \<and> unat (class_of b) < num_classes
    \<and> state_index (state d) * num_classes + unat (class_of b) < length fsm
    \<and> (\<exists>s. next_state (state d) (class_of b) = Inr s)
    \<and> (\<exists>s. next_state Start (class_of b) = Inr s)
    \<and> (\<exists>v d'. decode d b = Inr (v, d') \<and> reachable d')"
proof -
  from assms have inv: "decoder_inv d" by (rule reachable_inv)
  then have ne: "state d \<noteq> Error" by (rule decoder_inv_not_Error)
  have c: "unat (class_of b) < 12" using class_of_less [of b] by (simp add: word_less_nat_alt)
  have "state_index (state d) \<le> 7" using ne by (cases "state d") simp_all
  with c have ix: "state_index (state d) * num_classes + unat (class_of b) < length fsm"
    by (simp add: num_classes_def length_fsm)
  then have n: "\<exists>s. next_state (state d) (class_of b) = Inr s"
    by (simp add: next_state_def at_ix_def)
  from decode_inv [OF inv, of b] obtain v d' where dec: "decode d b = Inr (v, d')" by blast
  with assms have "reachable d'" by (rule reachable_decode)
  with dec ne c ix n show ?thesis
    by (auto simp add: at_char_classes next_state_Start num_classes_def)
qed

theorem decode_never_fails_witness:
  "reachable new_decoder
   \<and> state new_decoder \<noteq> Error
   \<and> state_index (state new_decoder) * num_classes + unat (class_of 0xff) < length fsm
   \<and> (\<exists>v d'. decode new_decoder 0xff = Inr (v, d') \<and> reachable d')"
  using decode_never_fails [OF reachable_new, of "0xff"] reachable_new by blast

text \<open>
  Claim C10. In every reachable decoder state, a pending code point is at most U+007F, and
  \<open>fetch\<close> returns it; when no code point is pending \<open>fetch\<close> returns nothing or the
  replacement U+FFFD. So \<open>fetch\<close> never returns a scalar decoded from several bytes.
\<close>

theorem pending_code_point_is_ascii:
  assumes "reachable d"
  shows "(to_deliver d \<noteq> Code_point \<or> (code d \<le> 0x7f \<and> fst (fetch d) = Some (code d)))
    \<and> (to_deliver d = Code_point
        \<or> fst (fetch d) = None \<or> fst (fetch d) = Some replacement_char)"
proof -
  from assms have "decoder_inv d" by (rule reachable_inv)
  then show ?thesis
    by (cases "to_deliver d") (auto simp add: decoder_inv_def fetch_def word_le_nat_alt)
qed

theorem pending_code_point_is_ascii_witness:
  "reachable \<lparr>code = 0x20, state = Start, to_deliver = Code_point\<rparr>
   \<and> to_deliver \<lparr>code = 0x20, state = Start, to_deliver = Code_point\<rparr> = Code_point
   \<and> code \<lparr>code = 0x20, state = Start, to_deliver = Code_point\<rparr> \<le> 0x7f
   \<and> fst (fetch \<lparr>code = 0x20, state = Start, to_deliver = Code_point\<rparr>) = Some 0x20"
proof -
  let ?d1 = "\<lparr>code = 2, state = Next1, to_deliver = Nothing\<rparr>"
  let ?d2 = "\<lparr>code = 0x20, state = Start, to_deliver = Code_point\<rparr>"
  have a: "decode new_decoder 0xc2 = Inr (None, ?d1)" by code_simp
  have b: "decode ?d1 0x20 = Inr (Some replacement_char, ?d2)" by code_simp
  have r: "reachable ?d2"
    by (rule reachable_decode [OF reachable_decode [OF reachable_new a] b])
  show ?thesis
    using r pending_code_point_is_ascii [OF r] by simp
qed


section \<open>Driving the decoder, step by step\<close>

definition accumulate :: "codepoint \<Rightarrow> byte \<Rightarrow> codepoint" where
  "accumulate c b = push_bit data_shift c OR ucast (b AND data_mask)"

lemma decoder_all_upd:
  "d\<lparr>code := x, state := y, to_deliver := z\<rparr> = \<lparr>code = x, state = y, to_deliver = z\<rparr>"
  by (cases d) simp

lemma drive_Start_indep:
  "state d = Start \<Longrightarrow> state d' = Start \<Longrightarrow> drive d bs = drive d' bs"
proof (induction bs arbitrary: d d')
  case Nil
  then show ?case by (simp add: drive_Nil check_last_error_def)
next
  case (Cons b bs)
  obtain c p where d: "d = \<lparr>code = c, state = Start, to_deliver = p\<rparr>"
    using Cons.prems(1) by (cases d) simp
  obtain c' p' where d': "d' = \<lparr>code = c', state = Start, to_deliver = p'\<rparr>"
    using Cons.prems(2) by (cases d') simp
  show ?case
  proof (cases "start_target b")
    case Start
    have "drive \<lparr>code = ucast b, state = Start, to_deliver = Nothing\<rparr> bs
        = drive \<lparr>code = ucast b, state = Start, to_deliver = Nothing\<rparr> bs" ..
    with Start show ?thesis
      by (simp add: d d' drive_Cons decode_at_Start fetch_def)
  next
    case Error
    have "drive \<lparr>code = c, state = Start, to_deliver = Nothing\<rparr> bs
        = drive \<lparr>code = c', state = Start, to_deliver = Nothing\<rparr> bs"
      by (rule Cons.IH) simp_all
    with Error show ?thesis
      by (simp add: d d' drive_Cons decode_at_Start fetch_def)
  qed (simp_all add: d d' drive_Cons decode_at_Start)
qed

lemma drive_ascii:
  assumes "state d = Start" "start_target b = Start"
  shows "drive d (b # bs) = map_sum id ((#) (ucast b)) (drive new_decoder bs)"
proof -
  have "drive (d\<lparr>code := ucast b, to_deliver := Nothing\<rparr>) bs = drive new_decoder bs"
    using assms(1) by (intro drive_Start_indep) (simp_all add: new_decoder_def)
  with assms show ?thesis
    by (simp add: drive_Cons decode_at_Start fetch_def)
qed

lemma drive_bad:
  assumes "state d = Start" "start_target b = Error"
  shows "drive d (b # bs) = map_sum id ((#) replacement_char) (drive new_decoder bs)"
proof -
  have "drive (d\<lparr>to_deliver := Nothing\<rparr>) bs = drive new_decoder bs"
    using assms(1) by (intro drive_Start_indep) (simp_all add: new_decoder_def)
  with assms show ?thesis
    by (simp add: drive_Cons decode_at_Start fetch_def)
qed

lemma drive_lead:
  assumes "state d = Start" "start_target b \<noteq> Start" "start_target b \<noteq> Error"
  shows "drive d (b # bs) =
    drive \<lparr>code = ucast (start_byte_payload b (class_of b)), state = start_target b,
           to_deliver = Nothing\<rparr> bs"
  using assms
  by (cases d; cases "start_target b") (simp_all add: drive_Cons decode_at_Start)

lemma drive_mid:
  assumes "state d \<noteq> Start" "state d \<noteq> Error" "accepts (state d) b"
    "cont_target (state d) \<noteq> Start"
  shows "drive d (b # bs) =
    drive \<lparr>code = accumulate (code d) b, state = cont_target (state d),
           to_deliver = Nothing\<rparr> bs"
  using assms
  by (cases d) (simp add: drive_Cons decode_accept accumulate_def)

lemma drive_last:
  assumes "state d \<noteq> Start" "state d \<noteq> Error" "accepts (state d) b"
    "cont_target (state d) = Start"
  shows "drive d (b # bs) = map_sum id ((#) (accumulate (code d) b)) (drive new_decoder bs)"
proof -
  have "drive (d\<lparr>code := accumulate (code d) b, state := Start, to_deliver := Nothing\<rparr>) bs
      = drive new_decoder bs"
    by (intro drive_Start_indep) (simp_all add: new_decoder_def)
  with assms show ?thesis
    by (simp add: drive_Cons decode_accept accumulate_def fetch_def)
qed

lemma drive_end: "state d \<noteq> Start \<Longrightarrow> drive d [] = Inr [replacement_char]"
  by (simp add: drive_Nil check_last_error_def)

lemma drive_interrupt:
  assumes "state d \<noteq> Start" "state d \<noteq> Error" "\<not> accepts (state d) b"
  shows "drive d (b # bs) = map_sum id ((#) replacement_char) (drive new_decoder (b # bs))"
proof -
  have n: "state new_decoder = Start" by (simp add: new_decoder_def)
  note dec = decode_interrupt [OF assms]
  show ?thesis
  proof (cases "start_target b")
    case Start
    have "drive (d\<lparr>code := ucast b, state := Start, to_deliver := Nothing\<rparr>) bs
        = drive new_decoder bs"
      by (intro drive_Start_indep) (simp_all add: new_decoder_def)
    with Start show ?thesis
      by (simp add: drive_Cons [of d] dec fetch_def drive_ascii [OF n Start]
          sum.map_comp comp_def id_def)
  next
    case Error
    have "drive (d\<lparr>state := Start, to_deliver := Nothing\<rparr>) bs = drive new_decoder bs"
      by (intro drive_Start_indep) (simp_all add: new_decoder_def)
    with Error show ?thesis
      by (simp add: drive_Cons [of d] dec fetch_def drive_bad [OF n Error]
          sum.map_comp comp_def id_def)
  qed (simp_all add: drive_Cons [of d] dec fetch_def drive_lead [OF n] id_def decoder_all_upd)
qed

section \<open>The reference decoder, step by step\<close>

declare ref_decode.simps [simp del]

definition partial_seq :: "byte list \<Rightarrow> bool" where
  "partial_seq pre = (case pre of [] \<Rightarrow> False | b0 # _ \<Rightarrow> wf_prefix pre \<and> length pre < seq_len b0)"

lemma seq_len_le: "seq_len b \<le> 4"
  by (simp add: seq_len_def)

lemma wf_prefix_length: "wf_prefix (b0 # q) \<Longrightarrow> Suc (length q) \<le> seq_len b0"
  by (cases "b0 # q" rule: wf_prefix.cases) auto

lemma wf_prefix_snoc: "wf_prefix (q @ [x]) \<Longrightarrow> wf_prefix q"
  by (cases q rule: wf_prefix.cases) auto

lemma wf_prefix_append: "wf_prefix (q @ q') \<Longrightarrow> wf_prefix q"
proof (induction q' rule: rev_induct)
  case Nil
  then show ?case by simp
next
  case (snoc x xs)
  then show ?case using wf_prefix_snoc [of "q @ xs" x] by simp
qed

lemma wf_prefix_take: "wf_prefix q \<Longrightarrow> wf_prefix (take i q)"
  using wf_prefix_append [of "take i q" "drop i q"] by simp

lemma longest_eqI:
  assumes "k \<le> length bs" "wf_prefix (take k bs)"
    and "\<And>j. k < j \<Longrightarrow> j \<le> length bs \<Longrightarrow> \<not> wf_prefix (take j bs)"
  shows "longest_wf_prefix bs = k"
proof -
  have len: "length (take k bs) = k" using assms(1) by simp
  have k4: "k \<le> 4"
  proof (cases "take k bs")
    case Nil
    with len show ?thesis by simp
  next
    case (Cons b0 q)
    with assms(2) have "Suc (length q) \<le> seq_len b0" by (simp add: wf_prefix_length)
    moreover from Cons len have "k = Suc (length q)" by simp
    ultimately show ?thesis using seq_len_le [of b0] by simp
  qed
  have up: "\<not> (j \<le> length bs \<and> wf_prefix (take j bs))" if "k < j" for j
    using assms(3) that by blast
  consider "k = 0" | "k = 1" | "k = 2" | "k = 3" | "k = 4" using k4 by linarith
  then show ?thesis
  proof cases
    case 1
    with up [of 1] up [of 2] up [of 3] up [of 4] show ?thesis
      by (simp add: longest_wf_prefix_def)
  next
    case 2
    with assms(1,2) up [of 2] up [of 3] up [of 4] show ?thesis
      by (simp add: longest_wf_prefix_def)
  next
    case 3
    with assms(1,2) up [of 3] up [of 4] show ?thesis
      by (simp add: longest_wf_prefix_def)
  next
    case 4
    with assms(1,2) up [of 4] show ?thesis
      by (simp add: longest_wf_prefix_def)
  next
    case 5
    with assms(1,2) show ?thesis
      by (simp add: longest_wf_prefix_def)
  qed
qed


lemma well_formed_Cons: "well_formed p \<Longrightarrow> \<exists>b0 q. p = b0 # q \<and> wf_prefix p \<and> length p = seq_len b0"
  by (cases p) (simp_all add: well_formed_def)

lemma partial_seq_Cons:
  "partial_seq pre \<Longrightarrow> \<exists>b0 q. pre = b0 # q \<and> wf_prefix pre \<and> length pre < seq_len b0"
  by (cases pre) (simp_all add: partial_seq_def)

lemma longest_well_formed:
  assumes "well_formed p"
  shows "longest_wf_prefix (p @ r) = length p"
proof (rule longest_eqI)
  show "length p \<le> length (p @ r)" by simp
  from assms show "wf_prefix (take (length p) (p @ r))"
    by (auto dest: well_formed_Cons)
next
  fix j
  assume j: "length p < j" "j \<le> length (p @ r)"
  from assms obtain b0 q where p: "p = b0 # q" "length p = seq_len b0"
    by (auto dest: well_formed_Cons)
  show "\<not> wf_prefix (take j (p @ r))"
  proof
    assume w: "wf_prefix (take j (p @ r))"
    from j p obtain t where t: "take j (p @ r) = b0 # t" by (cases j) auto
    then have "length (b0 # t) = j" using j(2) by (metis length_take min.absorb2)
    moreover from w t have "Suc (length t) \<le> seq_len b0" by (simp add: wf_prefix_length)
    ultimately show False using j(1) p(2) by simp
  qed
qed

lemma longest_interrupted:
  assumes "partial_seq pre" "\<not> wf_prefix (pre @ [b])"
  shows "longest_wf_prefix (pre @ b # r) = length pre"
proof (rule longest_eqI)
  show "length pre \<le> length (pre @ b # r)" by simp
  from assms(1) show "wf_prefix (take (length pre) (pre @ b # r))"
    by (auto dest: partial_seq_Cons)
next
  fix j
  assume j: "length pre < j" "j \<le> length (pre @ b # r)"
  show "\<not> wf_prefix (take j (pre @ b # r))"
  proof
    assume "wf_prefix (take j (pre @ b # r))"
    then have "wf_prefix (take (Suc (length pre)) (take j (pre @ b # r)))"
      by (rule wf_prefix_take)
    moreover have "take (Suc (length pre)) (take j (pre @ b # r)) = pre @ [b]"
      using j(1) by (simp add: min_def)
    ultimately show False using assms(2) by simp
  qed
qed

lemma longest_partial:
  assumes "partial_seq pre"
  shows "longest_wf_prefix pre = length pre"
proof (rule longest_eqI)
  from assms show "wf_prefix (take (length pre) pre)" by (auto dest: partial_seq_Cons)
qed simp_all

lemma longest_no_start:
  assumes "seq_len b = 0"
  shows "longest_wf_prefix (b # r) = 0"
proof (rule longest_eqI)
  fix j
  assume j: "0 < j" "j \<le> length (b # r)"
  show "\<not> wf_prefix (take j (b # r))"
  proof
    assume "wf_prefix (take j (b # r))"
    then have "wf_prefix (take 1 (take j (b # r)))" by (rule wf_prefix_take)
    moreover have "take 1 (take j (b # r)) = [b]" using j(1) by (cases j) simp_all
    ultimately show False using assms by simp
  qed
qed simp_all

lemma ref_decode_Nil: "ref_decode [] = []"
  by (simp add: ref_decode.simps)

lemma ref_decode_well_formed:
  assumes "well_formed p"
  shows "ref_decode (p @ r) = scalar_of p # ref_decode r"
proof -
  from assms have "p \<noteq> []" by (auto dest: well_formed_Cons)
  with assms show ?thesis
    by (simp add: ref_decode.simps [of "p @ r"] longest_well_formed)
qed

lemma partial_not_well_formed: "partial_seq pre \<Longrightarrow> \<not> well_formed pre"
  by (cases pre) (simp_all add: partial_seq_def well_formed_def)

lemma ref_decode_interrupted:
  assumes "partial_seq pre" "\<not> wf_prefix (pre @ [b])"
  shows "ref_decode (pre @ b # r) = replacement_char # ref_decode (b # r)"
proof -
  from assms(1) have "pre \<noteq> []" by (auto dest: partial_seq_Cons)
  then have "max 1 (length pre) = length pre" by (cases pre) simp_all
  with assms partial_not_well_formed [OF assms(1)] show ?thesis
    by (simp add: ref_decode.simps [of "pre @ b # r"] longest_interrupted)
qed

lemma ref_decode_partial:
  assumes "partial_seq pre"
  shows "ref_decode pre = [replacement_char]"
proof -
  from assms have "pre \<noteq> []" by (auto dest: partial_seq_Cons)
  then have "max 1 (length pre) = length pre" by (cases pre) simp_all
  with assms partial_not_well_formed [OF assms] \<open>pre \<noteq> []\<close> show ?thesis
    by (simp add: ref_decode.simps [of pre] longest_partial ref_decode_Nil)
qed

lemma ref_decode_no_start:
  assumes "seq_len b = 0"
  shows "ref_decode (b # r) = replacement_char # ref_decode r"
  using assms
  by (simp add: ref_decode.simps [of "b # r"] longest_no_start well_formed_def)

section \<open>The decoder follows the reference\<close>

text \<open>
  The state and the accumulator the decoder has after the first bytes of a sequence that
  is not yet complete.
\<close>

fun st :: "byte list \<Rightarrow> state" where
  "st [b0] = start_target b0"
| "st [b0, b1] = cont_target (start_target b0)"
| "st [b0, b1, b2] = cont_target (cont_target (start_target b0))"
| "st _ = Start"

fun val :: "byte list \<Rightarrow> codepoint" where
  "val [b0] = ucast (start_byte_payload b0 (class_of b0))"
| "val [b0, b1] = accumulate (ucast (start_byte_payload b0 (class_of b0))) b1"
| "val [b0, b1, b2] =
     accumulate (accumulate (ucast (start_byte_payload b0 (class_of b0))) b1) b2"
| "val _ = 0"

lemma seq_len_Start: "start_target b = Start \<longleftrightarrow> seq_len b = 1"
  by (cases b rule: class_cases) (simp_all add: start_target_def seq_len_def)

lemma seq_len_Error: "start_target b = Error \<longleftrightarrow> seq_len b = 0"
  by (cases b rule: class_cases) (simp_all add: start_target_def seq_len_def)

lemma lead_accepts:
  "2 \<le> seq_len b0 \<Longrightarrow> accepts (start_target b0) b = second_ok b0 b"
  by (cases b0 rule: class_cases)
     (simp_all add: start_target_def seq_len_def second_ok_def)

lemma lead_cont_target:
  "2 \<le> seq_len b0 \<Longrightarrow> cont_target (start_target b0) =
     (if seq_len b0 = 2 then Start else if seq_len b0 = 3 then Next1 else Next2)"
  by (cases b0 rule: class_cases)
     (simp_all add: start_target_def seq_len_def)

lemma lead_payload:
  assumes "2 \<le> seq_len b0"
  shows "unat b0 mod 2 ^ (8 - unat (class_of b0)) = unat b0 mod 2 ^ (7 - seq_len b0)"
proof (cases b0 rule: class_cases)
  case lead2
  then show ?thesis
    using mod_sub [of 3 64 "unat b0"] mod_sub [of 6 32 "unat b0"] by (simp add: seq_len_def)
next
  case lead3
  then show ?thesis
    using mod_sub [of 7 32 "unat b0"] mod_sub [of 14 16 "unat b0"] by (simp add: seq_len_def)
next
  case lead4
  then show ?thesis
    using mod_sub [of 60 4 "unat b0"] mod_sub [of 30 8 "unat b0"] by (simp add: seq_len_def)
qed (use assms in \<open>simp_all add: seq_len_def\<close>)


lemma partial_shapes:
  assumes "partial_seq pre"
  obtains (one) b0 where "pre = [b0]" "2 \<le> seq_len b0"
  | (two) b0 b1 where "pre = [b0, b1]" "3 \<le> seq_len b0" "second_ok b0 b1"
  | (three) b0 b1 b2 where "pre = [b0, b1, b2]" "seq_len b0 = 4" "second_ok b0 b1" "tail_byte b2"
proof (cases pre rule: wf_prefix.cases)
  case 1
  with assms show ?thesis by (simp add: partial_seq_def)
next
  case (2 b0)
  with assms one show ?thesis by (simp add: partial_seq_def)
next
  case (3 b0 b1)
  with assms two show ?thesis by (simp add: partial_seq_def)
next
  case (4 b0 b1 b2)
  with assms three seq_len_le [of b0] show ?thesis by (simp add: partial_seq_def)
next
  case (5 b0 b1 b2 b3)
  with assms seq_len_le [of b0] show ?thesis by (simp add: partial_seq_def)
next
  case (6 b0 b1 b2 b3 b4 bs)
  with assms show ?thesis by (simp add: partial_seq_def)
qed

lemma accepts_tail:
  "accepts Next1 b = tail_byte b" "accepts Next2 b = tail_byte b"
  by (simp_all add: tail_byte_def)

lemma st_partial:
  assumes "partial_seq pre"
  shows "st pre \<noteq> Start \<and> st pre \<noteq> Error
    \<and> accepts (st pre) b = wf_prefix (pre @ [b])
    \<and> (wf_prefix (pre @ [b]) \<longrightarrow> (cont_target (st pre) = Start) = well_formed (pre @ [b]))
    \<and> (cont_target (st pre) \<noteq> Start \<longrightarrow> wf_prefix (pre @ [b]) \<longrightarrow> partial_seq (pre @ [b]))
    \<and> (cont_target (st pre) \<noteq> Start \<longrightarrow> st (pre @ [b]) = cont_target (st pre))
    \<and> (cont_target (st pre) \<noteq> Start \<longrightarrow> val (pre @ [b]) = accumulate (val pre) b)"
  using assms
proof (cases pre rule: partial_shapes)
  case (one b0)
  then show ?thesis
    using seq_len_Start [of b0] seq_len_Error [of b0] seq_len_le [of b0]
    by (auto simp add: lead_accepts lead_cont_target well_formed_def partial_seq_def
        split: if_splits)
next
  case (two b0 b1)
  then show ?thesis
    using seq_len_le [of b0]
    by (auto simp add: lead_cont_target tail_byte_def well_formed_def partial_seq_def
        split: if_splits)
next
  case (three b0 b1 b2)
  then show ?thesis
    by (auto simp add: lead_cont_target tail_byte_def well_formed_def partial_seq_def)
qed

lemma word_eq_of_natI: "unat (w :: codepoint) = n \<Longrightarrow> w = of_nat n"
  by auto

lemma unat_accumulate:
  "unat c < 2 ^ 58 \<Longrightarrow> unat (accumulate c b) = unat c * 64 + unat b mod 64"
  unfolding accumulate_def by (rule acc_step)

lemma val_one:
  assumes "2 \<le> seq_len b0"
  shows "unat (ucast (start_byte_payload b0 (class_of b0)) :: codepoint)
    = unat b0 mod 2 ^ (7 - seq_len b0)"
  using lead_payload [OF assms] by (simp add: payload_nat)

lemma mod_less_256: "unat (b :: byte) mod m < 256"
proof -
  have "unat b mod m \<le> unat b" by (rule mod_less_eq_dividend)
  moreover have "unat b < 256" using unsigned_less [of b] by simp
  ultimately show ?thesis by (rule le_less_trans)
qed

lemma complete_value:
  assumes "partial_seq pre" "well_formed (pre @ [b])"
  shows "accumulate (val pre) b = scalar_of (pre @ [b])"
proof -
  let ?p = "\<lambda>b0. ucast (start_byte_payload b0 (class_of b0)) :: codepoint"
  from assms(1) show ?thesis
  proof (cases pre rule: partial_shapes)
    case (one b0)
    with assms(2) have n: "seq_len b0 = 2" by (simp add: well_formed_def)
    then have v: "unat (?p b0) = unat b0 mod 32" using val_one [of b0] by simp
    then have "unat (?p b0) < 2 ^ 58" using mod_less_256 [of b0 32] by simp
    then have "unat (accumulate (?p b0) b) = unat b0 mod 32 * 64 + unat b mod 64"
      by (simp add: unat_accumulate v)
    then have "accumulate (?p b0) b = of_nat (unat b0 mod 32 * 64 + unat b mod 64)"
      by (rule word_eq_of_natI)
    then show ?thesis
      unfolding one by (simp only: append_Cons append_Nil val.simps scalar_of.simps)
  next
    case (two b0 b1)
    with assms(2) have n: "seq_len b0 = 3" by (simp add: well_formed_def)
    then have v: "unat (?p b0) = unat b0 mod 16" using val_one [of b0] by simp
    then have "unat (?p b0) < 2 ^ 58" using mod_less_256 [of b0 16] by simp
    then have v1: "unat (accumulate (?p b0) b1) = unat b0 mod 16 * 64 + unat b1 mod 64"
      by (simp add: unat_accumulate v)
    have "unat b0 mod 16 * 64 + unat b1 mod 64 < 2 ^ 58"
      using mod_less_256 [of b0 16] mod_less_256 [of b1 64] by simp
    then have "unat (accumulate (accumulate (?p b0) b1) b)
        = unat b0 mod 16 * 4096 + unat b1 mod 64 * 64 + unat b mod 64"
      by (simp add: unat_accumulate v1)
    then have "accumulate (accumulate (?p b0) b1) b
        = of_nat (unat b0 mod 16 * 4096 + unat b1 mod 64 * 64 + unat b mod 64)"
      by (rule word_eq_of_natI)
    then show ?thesis
      unfolding two by (simp only: append_Cons append_Nil val.simps scalar_of.simps)
  next
    case (three b0 b1 b2)
    then have n: "seq_len b0 = 4" by simp
    then have v: "unat (?p b0) = unat b0 mod 8" using val_one [of b0] by simp
    then have "unat (?p b0) < 2 ^ 58" using mod_less_256 [of b0 8] by simp
    then have v1: "unat (accumulate (?p b0) b1) = unat b0 mod 8 * 64 + unat b1 mod 64"
      by (simp add: unat_accumulate v)
    have "unat b0 mod 8 * 64 + unat b1 mod 64 < 2 ^ 58"
      using mod_less_256 [of b0 8] mod_less_256 [of b1 64] by simp
    then have v2: "unat (accumulate (accumulate (?p b0) b1) b2)
        = (unat b0 mod 8 * 64 + unat b1 mod 64) * 64 + unat b2 mod 64"
      by (simp add: unat_accumulate v1)
    have "(unat b0 mod 8 * 64 + unat b1 mod 64) * 64 + unat b2 mod 64 < 2 ^ 58"
      using mod_less_256 [of b0 8] mod_less_256 [of b1 64] mod_less_256 [of b2 64] by simp
    then have "unat (accumulate (accumulate (accumulate (?p b0) b1) b2) b)
        = unat b0 mod 8 * 262144 + unat b1 mod 64 * 4096 + unat b2 mod 64 * 64 + unat b mod 64"
      by (simp add: unat_accumulate v2)
    then have "accumulate (accumulate (accumulate (?p b0) b1) b2) b
        = of_nat (unat b0 mod 8 * 262144 + unat b1 mod 64 * 4096 + unat b2 mod 64 * 64
                  + unat b mod 64)"
      by (rule word_eq_of_natI)
    then show ?thesis
      unfolding three by (simp only: append_Cons append_Nil val.simps scalar_of.simps)
  qed
qed

lemma drive_tracks:
  assumes "(pre = [] \<and> state d = Start) \<or> (partial_seq pre \<and> state d = st pre \<and> code d = val pre)"
  shows "drive d r = Inr (ref_decode (pre @ r))"
  using assms
proof (induction r arbitrary: d pre)
  case Nil
  then show ?case
  proof
    assume "pre = [] \<and> state d = Start"
    then show ?thesis by (simp add: drive_Nil check_last_error_def ref_decode_Nil)
  next
    assume p: "partial_seq pre \<and> state d = st pre \<and> code d = val pre"
    then have "state d \<noteq> Start" using st_partial [of pre] by simp
    with p show ?thesis by (simp add: drive_end ref_decode_partial)
  qed
next
  case (Cons b r)
  have new: "drive new_decoder r = Inr (ref_decode r)"
    using Cons.IH [of "[]" new_decoder] by (simp add: new_decoder_def)
  have start: "drive d0 (b # r) = Inr (ref_decode (b # r))" if s: "state d0 = Start" for d0
  proof -
    consider "seq_len b = 0" | "seq_len b = 1" | "2 \<le> seq_len b" by linarith
    then show ?thesis
    proof cases
      case 1
      then have "start_target b = Error" by (simp add: seq_len_Error)
      with s 1 new show ?thesis by (simp add: drive_bad ref_decode_no_start)
    next
      case 2
      then have t: "start_target b = Start" by (simp add: seq_len_Start)
      from 2 have "well_formed [b]" by (simp add: well_formed_def)
      then have "ref_decode ([b] @ r) = scalar_of [b] # ref_decode r"
        by (rule ref_decode_well_formed)
      with s t new show ?thesis by (simp add: drive_ascii)
    next
      case 3
      then have t: "start_target b \<noteq> Start" "start_target b \<noteq> Error"
        using seq_len_Start [of b] seq_len_Error [of b] by simp_all
      from 3 have "partial_seq [b]" by (simp add: partial_seq_def)
      then have "drive \<lparr>code = val [b], state = st [b], to_deliver = Nothing\<rparr> r
          = Inr (ref_decode ([b] @ r))"
        by (intro Cons.IH) simp
      with s t show ?thesis by (simp add: drive_lead)
    qed
  qed
  from Cons.prems show ?case
  proof
    assume "pre = [] \<and> state d = Start"
    then show ?thesis using start [of d] by simp
  next
    assume p: "partial_seq pre \<and> state d = st pre \<and> code d = val pre"
    then have ps: "partial_seq pre" and sd: "state d = st pre" and cd: "code d = val pre"
      by simp_all
    note k = st_partial [OF ps, of b]
    from k sd have ne: "state d \<noteq> Start" "state d \<noteq> Error" by simp_all
    show ?thesis
    proof (cases "wf_prefix (pre @ [b])")
      case False
      with k sd have "\<not> accepts (state d) b" by simp
      with ne have "drive d (b # r)
          = map_sum id ((#) replacement_char) (drive new_decoder (b # r))"
        by (rule drive_interrupt)
      moreover have "drive new_decoder (b # r) = Inr (ref_decode (b # r))"
        by (rule start) (simp add: new_decoder_def)
      ultimately show ?thesis using ps False by (simp add: ref_decode_interrupted)
    next
      case True
      with k sd have acc: "accepts (state d) b" by simp
      show ?thesis
      proof (cases "cont_target (state d) = Start")
        case T: True
        with k sd True have wf: "well_formed (pre @ [b])" by simp
        from ne acc T have "drive d (b # r)
            = map_sum id ((#) (accumulate (code d) b)) (drive new_decoder r)"
          by (rule drive_last)
        moreover have "ref_decode ((pre @ [b]) @ r) = scalar_of (pre @ [b]) # ref_decode r"
          using wf by (rule ref_decode_well_formed)
        ultimately show ?thesis using new cd complete_value [OF ps wf] by simp
      next
        case F: False
        with k sd True have p': "partial_seq (pre @ [b])"
          "st (pre @ [b]) = cont_target (st pre)" "val (pre @ [b]) = accumulate (val pre) b"
          by simp_all
        from ne acc F have "drive d (b # r)
            = drive \<lparr>code = accumulate (code d) b, state = cont_target (state d),
                     to_deliver = Nothing\<rparr> r"
          by (rule drive_mid)
        moreover have "drive \<lparr>code = accumulate (code d) b, state = cont_target (state d),
                     to_deliver = Nothing\<rparr> r = Inr (ref_decode ((pre @ [b]) @ r))"
          by (intro Cons.IH) (simp add: p' sd cd)
        ultimately show ?thesis by simp
      qed
    qed
  qed
qed

lemma drive_ref_decode: "drive new_decoder bs = Inr (ref_decode bs)"
  using drive_tracks [of "[]" new_decoder bs] by (simp add: new_decoder_def)

section \<open>The encoding of a scalar value is well-formed\<close>

lemma unat_byte_of_nat: "k < 256 \<Longrightarrow> unat (byte_of_nat k) = k"
  by (simp add: byte_of_nat_def unat_of_nat)

lemma of_nat_unat_codepoint: "of_nat (unat (c :: codepoint)) = c"
  by simp

lemma split2: "(n::nat) = n div 64 * 64 + n mod 64"
  by simp

lemma split3: "(n::nat) = n div 4096 * 4096 + n div 64 mod 64 * 64 + n mod 64"
proof -
  have "n div 64 = n div 64 div 64 * 64 + n div 64 mod 64" by simp
  moreover have "n div 64 div 64 = n div 4096" by (simp add: div_mult2_eq [symmetric])
  ultimately have "n div 64 = n div 4096 * 64 + n div 64 mod 64" by simp
  then have "n div 64 * 64 = n div 4096 * 4096 + n div 64 mod 64 * 64" by simp
  with split2 [of n] show ?thesis by linarith
qed

lemma split4:
  "(n::nat) = n div 262144 * 262144 + n div 4096 mod 64 * 4096 + n div 64 mod 64 * 64 + n mod 64"
proof -
  have "n div 4096 = n div 4096 div 64 * 64 + n div 4096 mod 64" by simp
  moreover have "n div 4096 div 64 = n div 262144" by (simp add: div_mult2_eq [symmetric])
  ultimately have "n div 4096 = n div 262144 * 64 + n div 4096 mod 64" by simp
  then have "n div 4096 * 4096 = n div 262144 * 262144 + n div 4096 mod 64 * 4096" by simp
  with split3 [of n] show ?thesis by linarith
qed

lemma add_mod_small: "(m::nat) < k \<Longrightarrow> (q * k + m) mod k = m"
  by simp

lemma encode_1:
  assumes "unat c < 0x80"
  shows "well_formed (utf8_encode c) \<and> scalar_of (utf8_encode c) = c"
proof -
  let ?n = "unat c"
  have e: "utf8_encode c = [byte_of_nat ?n]"
    using assms by (simp add: utf8_encode_def Let_def)
  have u: "unat (byte_of_nat ?n) = ?n" using assms by (simp add: unat_byte_of_nat)
  have wf: "well_formed (utf8_encode c)"
    using assms by (simp add: e well_formed_def seq_len_def u)
  have "scalar_of (utf8_encode c) = of_nat ?n"
    by (simp only: e scalar_of.simps u)
  with wf show ?thesis by (simp only: of_nat_unat_codepoint simp_thms)
qed

lemma encode_2:
  assumes "0x80 \<le> unat c" "unat c < 0x800"
  shows "well_formed (utf8_encode c) \<and> scalar_of (utf8_encode c) = c"
proof -
  let ?n = "unat c"
  define a where "a = ?n div 64"
  define m where "m = ?n mod 64"
  have n: "?n = a * 64 + m" and m: "m < 64" by (simp_all add: a_def m_def)
  from assms n m have a: "2 \<le> a" "a < 32" by linarith+
  have e: "utf8_encode c = [byte_of_nat (0xc0 + a), byte_of_nat (0x80 + m)]"
    using assms by (simp add: utf8_encode_def Let_def a_def m_def)
  have u0: "unat (byte_of_nat (0xc0 + a)) = 0xc0 + a" using a by (simp add: unat_byte_of_nat)
  have u1: "unat (byte_of_nat (0x80 + m)) = 0x80 + m" using m by (simp add: unat_byte_of_nat)
  have wf: "well_formed (utf8_encode c)"
    using a m by (simp add: e well_formed_def seq_len_def second_ok_def u0 u1)
  have "(0xc0 + a) mod 32 = a" using add_mod_small [of a 32 6] a by simp
  moreover have "(0x80 + m) mod 64 = m" using add_mod_small [of m 64 2] m by simp
  ultimately have "scalar_of (utf8_encode c) = of_nat (a * 64 + m)"
    by (simp only: e scalar_of.simps u0 u1)
  then have "scalar_of (utf8_encode c) = of_nat ?n" by (simp only: n [symmetric])
  with wf show ?thesis by (simp only: of_nat_unat_codepoint simp_thms)
qed

lemma encode_3:
  assumes "0x800 \<le> unat c" "unat c < 0x10000" "unat c < 0xd800 \<or> 0xdfff < unat c"
  shows "well_formed (utf8_encode c) \<and> scalar_of (utf8_encode c) = c"
proof -
  let ?n = "unat c"
  define a where "a = ?n div 4096"
  define m1 where "m1 = ?n div 64 mod 64"
  define m2 where "m2 = ?n mod 64"
  have n: "?n = a * 4096 + m1 * 64 + m2" and m: "m1 < 64" "m2 < 64"
    using split3 [of ?n] by (simp_all add: a_def m1_def m2_def)
  from assms n m have a: "a < 16" by linarith
  from assms n m have a0: "a = 0 \<Longrightarrow> 32 \<le> m1" by linarith
  from assms n m have a13: "a = 13 \<Longrightarrow> m1 < 32" by linarith
  have e: "utf8_encode c
      = [byte_of_nat (0xe0 + a), byte_of_nat (0x80 + m1), byte_of_nat (0x80 + m2)]"
    using assms by (simp add: utf8_encode_def Let_def a_def m1_def m2_def)
  have u0: "unat (byte_of_nat (0xe0 + a)) = 0xe0 + a" using a by (simp add: unat_byte_of_nat)
  have u1: "unat (byte_of_nat (0x80 + m1)) = 0x80 + m1" using m by (simp add: unat_byte_of_nat)
  have u2: "unat (byte_of_nat (0x80 + m2)) = 0x80 + m2" using m by (simp add: unat_byte_of_nat)
  have wf: "well_formed (utf8_encode c)"
    using a m a0 a13
    by (auto simp add: e well_formed_def seq_len_def second_ok_def tail_byte_def u0 u1 u2)
  have "(0xe0 + a) mod 16 = a" using add_mod_small [of a 16 14] a by simp
  moreover have "(0x80 + m1) mod 64 = m1" using add_mod_small [of m1 64 2] m by simp
  moreover have "(0x80 + m2) mod 64 = m2" using add_mod_small [of m2 64 2] m by simp
  ultimately have "scalar_of (utf8_encode c) = of_nat (a * 4096 + m1 * 64 + m2)"
    by (simp only: e scalar_of.simps u0 u1 u2)
  then have "scalar_of (utf8_encode c) = of_nat ?n" by (simp only: n [symmetric])
  with wf show ?thesis by (simp only: of_nat_unat_codepoint simp_thms)
qed

lemma encode_4:
  assumes "0x10000 \<le> unat c" "unat c \<le> 0x10ffff"
  shows "well_formed (utf8_encode c) \<and> scalar_of (utf8_encode c) = c"
proof -
  let ?n = "unat c"
  define a where "a = ?n div 262144"
  define m1 where "m1 = ?n div 4096 mod 64"
  define m2 where "m2 = ?n div 64 mod 64"
  define m3 where "m3 = ?n mod 64"
  have n: "?n = a * 262144 + m1 * 4096 + m2 * 64 + m3" and m: "m1 < 64" "m2 < 64" "m3 < 64"
    using split4 [of ?n] by (simp_all add: a_def m1_def m2_def m3_def)
  from assms n m have a: "a < 5" by linarith
  from assms n m have a0: "a = 0 \<Longrightarrow> 16 \<le> m1" by linarith
  from assms n m have a4: "a = 4 \<Longrightarrow> m1 < 16" by linarith
  have e: "utf8_encode c
      = [byte_of_nat (0xf0 + a), byte_of_nat (0x80 + m1), byte_of_nat (0x80 + m2),
         byte_of_nat (0x80 + m3)]"
    using assms by (simp add: utf8_encode_def Let_def a_def m1_def m2_def m3_def)
  have u0: "unat (byte_of_nat (0xf0 + a)) = 0xf0 + a" using a by (simp add: unat_byte_of_nat)
  have u1: "unat (byte_of_nat (0x80 + m1)) = 0x80 + m1" using m by (simp add: unat_byte_of_nat)
  have u2: "unat (byte_of_nat (0x80 + m2)) = 0x80 + m2" using m by (simp add: unat_byte_of_nat)
  have u3: "unat (byte_of_nat (0x80 + m3)) = 0x80 + m3" using m by (simp add: unat_byte_of_nat)
  have wf: "well_formed (utf8_encode c)"
    using a m a0 a4
    by (auto simp add: e well_formed_def seq_len_def second_ok_def tail_byte_def u0 u1 u2 u3)
  have "(0xf0 + a) mod 8 = a" using add_mod_small [of a 8 30] a by simp
  moreover have "(0x80 + m1) mod 64 = m1" using add_mod_small [of m1 64 2] m by simp
  moreover have "(0x80 + m2) mod 64 = m2" using add_mod_small [of m2 64 2] m by simp
  moreover have "(0x80 + m3) mod 64 = m3" using add_mod_small [of m3 64 2] m by simp
  ultimately have "scalar_of (utf8_encode c) = of_nat (a * 262144 + m1 * 4096 + m2 * 64 + m3)"
    by (simp only: e scalar_of.simps u0 u1 u2 u3)
  then have "scalar_of (utf8_encode c) = of_nat ?n" by (simp only: n [symmetric])
  with wf show ?thesis by (simp only: of_nat_unat_codepoint simp_thms)
qed

lemma encode_scalar:
  assumes "is_scalar c"
  shows "well_formed (utf8_encode c) \<and> scalar_of (utf8_encode c) = c"
proof -
  from assms have r: "unat c \<le> 0x10ffff" "unat c < 0xd800 \<or> 0xdfff < unat c"
    by (simp_all add: is_scalar_def)
  consider "unat c < 0x80" | "0x80 \<le> unat c \<and> unat c < 0x800"
    | "0x800 \<le> unat c \<and> unat c < 0x10000" | "0x10000 \<le> unat c"
    by linarith
  then show ?thesis
  proof cases
    case 1 then show ?thesis by (rule encode_1)
  next
    case 2 then show ?thesis using encode_2 by blast
  next
    case 3 then show ?thesis using encode_3 r(2) by blast
  next
    case 4 then show ?thesis using encode_4 r(1) by blast
  qed
qed

section \<open>The run on well-formed input\<close>

lemma protocol_ascii:
  assumes "state d = Start" "start_target b = Start"
  shows "protocol d (b # r) =
    map_sum id (\<lambda>t. Decoded (Some (ucast b)) # Fetched None # t)
      (protocol (d\<lparr>code := ucast b, to_deliver := Nothing\<rparr>) r)"
  using assms by (simp add: decode_at_Start fetch_def)

lemma protocol_lead:
  assumes "state d = Start" "start_target b \<noteq> Start" "start_target b \<noteq> Error"
  shows "protocol d (b # r) =
    map_sum id ((#) (Decoded None))
      (protocol \<lparr>code = ucast (start_byte_payload b (class_of b)), state = start_target b,
                 to_deliver = Nothing\<rparr> r)"
  using assms
  by (cases d; cases "start_target b") (simp_all add: decode_at_Start)

lemma protocol_mid:
  assumes "state d \<noteq> Start" "state d \<noteq> Error" "accepts (state d) b"
    "cont_target (state d) \<noteq> Start"
  shows "protocol d (b # r) =
    map_sum id ((#) (Decoded None))
      (protocol \<lparr>code = accumulate (code d) b, state = cont_target (state d),
                 to_deliver = Nothing\<rparr> r)"
  using assms
  by (cases d) (simp add: decode_accept accumulate_def)

lemma protocol_last:
  assumes "state d \<noteq> Start" "state d \<noteq> Error" "accepts (state d) b"
    "cont_target (state d) = Start"
  shows "protocol d (b # r) =
    map_sum id (\<lambda>t. Decoded (Some (accumulate (code d) b)) # Fetched None # t)
      (protocol \<lparr>code = accumulate (code d) b, state = Start, to_deliver = Nothing\<rparr> r)"
  using assms
  by (cases d) (simp add: decode_accept accumulate_def fetch_def)

definition char_events :: "nat \<Rightarrow> codepoint \<Rightarrow> event list" where
  "char_events n c = replicate (n - 1) (Decoded None) @ [Decoded (Some c), Fetched None]"

lemma append_two: "(@) [x, y] = (\<lambda>t. x # y # t)"
  by (rule ext) simp

lemma append_Cons_fun: "(@) (x # xs) = (\<lambda>t. x # xs @ t)"
  by (rule ext) simp

lemma well_formed_length:
  "well_formed (b0 # q) \<Longrightarrow> Suc (length q) = seq_len b0"
  by (simp add: well_formed_def)

lemma protocol_tracks:
  assumes "partial_seq pre" "state d = st pre" "code d = val pre" "well_formed (pre @ q)"
  shows "\<exists>d'. state d' = Start \<and>
    protocol d (q @ r) =
      map_sum id ((@) (char_events (length q) (scalar_of (pre @ q)))) (protocol d' r)"
  using assms
proof (induction q arbitrary: pre d)
  case Nil
  then show ?case using partial_not_well_formed [of pre] by simp
next
  case (Cons b q)
  note k = st_partial [OF Cons.prems(1), of b]
  from Cons.prems(4) have "wf_prefix ((pre @ [b]) @ q)"
    by (cases pre) (simp_all add: well_formed_def)
  then have w: "wf_prefix (pre @ [b])" by (rule wf_prefix_append)
  with k Cons.prems(2) have ne: "state d \<noteq> Start" "state d \<noteq> Error"
    and acc: "accepts (state d) b" by simp_all
  obtain b0 t where pre: "pre = b0 # t" using Cons.prems(1) by (auto dest: partial_seq_Cons)
  show ?case
  proof (cases "cont_target (state d) = Start")
    case True
    with k w Cons.prems(2) have wf: "well_formed (pre @ [b])" by simp
    from wf pre have "Suc (length t + 1) = seq_len b0"
      using well_formed_length [of b0 "t @ [b]"] by simp
    moreover from Cons.prems(4) pre have "Suc (length t + 1 + length q) = seq_len b0"
      using well_formed_length [of b0 "t @ b # q"] by simp
    ultimately have "length q = 0" by linarith
    then have q: "q = []" by simp
    have "accumulate (code d) b = scalar_of (pre @ [b])"
      using complete_value [OF Cons.prems(1) wf] Cons.prems(3) by simp
    with q protocol_last [OF ne acc True, of r] show ?thesis
      by (intro exI [of _ "\<lparr>code = accumulate (code d) b, state = Start, to_deliver = Nothing\<rparr>"])
         (simp add: char_events_def append_two id_def del: protocol.simps)
  next
    case False
    with k w Cons.prems(2,3) have p': "partial_seq (pre @ [b])"
      "cont_target (state d) = st (pre @ [b])" "accumulate (code d) b = val (pre @ [b])"
      by simp_all
    let ?d1 = "\<lparr>code = accumulate (code d) b, state = cont_target (state d),
                 to_deliver = Nothing\<rparr>"
    from Cons.prems(4) have wf': "well_formed ((pre @ [b]) @ q)" by simp
    have "\<exists>d'. state d' = Start \<and>
      protocol ?d1 (q @ r) =
        map_sum id ((@) (char_events (length q) (scalar_of ((pre @ [b]) @ q)))) (protocol d' r)"
      by (rule Cons.IH [OF p'(1) _ _ wf']) (simp_all add: p')
    then obtain d' where d': "state d' = Start"
      "protocol ?d1 (q @ r) =
        map_sum id ((@) (char_events (length q) (scalar_of ((pre @ [b]) @ q)))) (protocol d' r)"
      by blast
    from wf' p'(1) have "q \<noteq> []" using partial_not_well_formed [of "pre @ [b]"] by auto
    then have "char_events (length (b # q)) c = Decoded None # char_events (length q) c" for c
      by (cases q) (simp_all add: char_events_def)
    with d' protocol_mid [OF ne acc False, of "q @ r"] show ?thesis
      by (intro exI [of _ d']) (simp add: sum.map_comp comp_def id_def append_Cons_fun del: protocol.simps)
  qed
qed

lemma protocol_well_formed:
  assumes "state d = Start" "well_formed p"
  shows "\<exists>d'. state d' = Start \<and>
    protocol d (p @ r) =
      map_sum id ((@) (char_events (length p) (scalar_of p))) (protocol d' r)"
proof -
  from assms(2) obtain b q where p: "p = b # q" and len: "Suc (length q) = seq_len b"
    by (cases p) (simp_all add: well_formed_def)
  show ?thesis
  proof (cases "seq_len b = 1")
    case True
    with len have q: "q = []" by simp
    from True have t: "start_target b = Start" by (simp add: seq_len_Start)
    show ?thesis
      using protocol_ascii [OF assms(1) t, of r] assms(1)
      by (intro exI [of _ "d\<lparr>code := ucast b, to_deliver := Nothing\<rparr>"])
         (simp add: p q char_events_def append_two id_def del: protocol.simps)
  next
    case False
    with len have n: "2 \<le> seq_len b" by simp
    then have t: "start_target b \<noteq> Start" "start_target b \<noteq> Error"
      using seq_len_Start [of b] seq_len_Error [of b] by simp_all
    let ?d1 = "\<lparr>code = ucast (start_byte_payload b (class_of b)), state = start_target b,
                 to_deliver = Nothing\<rparr>"
    from n have ps: "partial_seq [b]" by (simp add: partial_seq_def)
    from assms(2) p have wf: "well_formed ([b] @ q)" by simp
    have "\<exists>d'. state d' = Start \<and>
      protocol ?d1 (q @ r) =
        map_sum id ((@) (char_events (length q) (scalar_of ([b] @ q)))) (protocol d' r)"
      by (rule protocol_tracks [OF ps _ _ wf]) simp_all
    then obtain d' where d': "state d' = Start"
      "protocol ?d1 (q @ r) =
        map_sum id ((@) (char_events (length q) (scalar_of ([b] @ q)))) (protocol d' r)"
      by blast
    from len n have "q \<noteq> []" by auto
    then have "char_events (length (b # q)) c = Decoded None # char_events (length q) c" for c
      by (cases q) (simp_all add: char_events_def)
    with d' protocol_lead [OF assms(1) t, of "q @ r"] show ?thesis
      by (intro exI [of _ d']) (simp add: p sum.map_comp comp_def id_def append_Cons_fun del: protocol.simps)
  qed
qed

lemma protocol_encoded:
  assumes "state d = Start" "list_all is_scalar cs"
  shows "protocol d (concat (map utf8_encode cs)) =
    Inr (concat (map (\<lambda>c. char_events (length (utf8_encode c)) c) cs) @ [Last_error None])"
  using assms
proof (induction cs arbitrary: d)
  case Nil
  then show ?case by (simp add: check_last_error_def)
next
  case (Cons c cs)
  from Cons.prems(2) have "is_scalar c" by simp
  then have e: "well_formed (utf8_encode c)" "scalar_of (utf8_encode c) = c"
    using encode_scalar by blast+
  from protocol_well_formed [OF Cons.prems(1) e(1), of "concat (map utf8_encode cs)"]
  obtain d' where d': "state d' = Start"
    "protocol d (utf8_encode c @ concat (map utf8_encode cs)) =
      map_sum id ((@) (char_events (length (utf8_encode c)) (scalar_of (utf8_encode c))))
        (protocol d' (concat (map utf8_encode cs)))"
    by blast
  from Cons.prems(2) have "list_all is_scalar cs" by simp
  with d'(1) have "protocol d' (concat (map utf8_encode cs)) =
    Inr (concat (map (\<lambda>c. char_events (length (utf8_encode c)) c) cs) @ [Last_error None])"
    by (rule Cons.IH)
  with d'(2) e(2) show ?case by simp
qed

section \<open>Decoding well-formed and ill-formed input\<close>

lemma emitted_append: "emitted (xs @ ys) = emitted xs @ emitted ys"
  by (simp add: emitted_def List.map_filter_def)

lemma emitted_char_events: "emitted (char_events n c) = [c]"
  by (simp add: emitted_def List.map_filter_def char_events_def)

lemma emitted_concat_char_events:
  "emitted (concat (map (\<lambda>c. char_events (f c) c) cs)) = cs"
  by (induction cs) (simp_all add: emitted_append emitted_char_events emitted_simps)

text \<open>
  Claim C1. For every sequence of scalar values, driving a fresh decoder over its UTF-8
  encoding, byte by byte, gives this run: \<open>decode\<close> returns nothing on every byte but the
  last of a sequence, returns the scalar on the last byte, the \<open>fetch\<close> after it returns
  nothing, and \<open>check_last_error\<close> at the end returns nothing. The values returned are
  exactly the scalar values encoded.
\<close>

theorem well_formed_input_decodes_exactly:
  assumes "list_all is_scalar cs"
  shows "protocol new_decoder (concat (map utf8_encode cs)) =
      Inr (concat (map (\<lambda>c. replicate (length (utf8_encode c) - 1) (Decoded None)
                              @ [Decoded (Some c), Fetched None]) cs)
           @ [Last_error None])
    \<and> drive new_decoder (concat (map utf8_encode cs)) = Inr cs"
proof -
  have s: "state new_decoder = Start" by (simp add: new_decoder_def)
  have p: "protocol new_decoder (concat (map utf8_encode cs)) =
    Inr (concat (map (\<lambda>c. char_events (length (utf8_encode c)) c) cs) @ [Last_error None])"
    using s assms by (rule protocol_encoded)
  then have "drive new_decoder (concat (map utf8_encode cs)) = Inr cs"
    by (simp add: drive_def emitted_append emitted_concat_char_events emitted_simps)
  with p show ?thesis by (simp add: char_events_def)
qed

theorem well_formed_input_decodes_exactly_witness:
  "list_all is_scalar [0x61, 0x62, 0x24, 0xa3, 0x418, 0x939, 0x20ac, 0xd55c, 0x10348]
   \<and> concat (map utf8_encode [0x61, 0x62, 0x24, 0xa3, 0x418, 0x939, 0x20ac, 0xd55c, 0x10348])
       = [0x61, 0x62, 0x24, 0xc2, 0xa3, 0xd0, 0x98, 0xe0, 0xa4, 0xb9, 0xe2, 0x82, 0xac,
          0xed, 0x95, 0x9c, 0xf0, 0x90, 0x8d, 0x88]
   \<and> drive new_decoder [0x61, 0x62, 0x24, 0xc2, 0xa3, 0xd0, 0x98, 0xe0, 0xa4, 0xb9, 0xe2,
          0x82, 0xac, 0xed, 0x95, 0x9c, 0xf0, 0x90, 0x8d, 0x88]
       = Inr [0x61, 0x62, 0x24, 0xa3, 0x418, 0x939, 0x20ac, 0xd55c, 0x10348]"
proof -
  let ?cs = "[0x61, 0x62, 0x24, 0xa3, 0x418, 0x939, 0x20ac, 0xd55c, 0x10348] :: codepoint list"
  have h: "list_all is_scalar ?cs" by (simp add: is_scalar_def)
  have e: "concat (map utf8_encode ?cs)
       = [0x61, 0x62, 0x24, 0xc2, 0xa3, 0xd0, 0x98, 0xe0, 0xa4, 0xb9, 0xe2, 0x82, 0xac,
          0xed, 0x95, 0x9c, 0xf0, 0x90, 0x8d, 0x88]"
    by (simp add: utf8_encode_def byte_of_nat_def)
  show ?thesis
    using h well_formed_input_decodes_exactly [OF h] unfolding e by simp
qed

text \<open>
  Claim C2. For every byte sequence, well-formed or not, the driven decoder returns what
  the substitution of maximal subparts prescribes: the scalar value of every well-formed
  sequence, and exactly one U+FFFD for every maximal subpart of an ill-formed one, also for
  a sequence cut off by the end of the input. The runs on F4 8F BF 22, on F4 90 80 80 22
  and on 24 C2 are instances.
\<close>

theorem one_replacement_per_maximal_subpart:
  "drive new_decoder bs = Inr (ref_decode bs)
   \<and> drive new_decoder [0xf4, 0x8f, 0xbf, 0x22] = Inr [0xfffd, 0x22]
   \<and> drive new_decoder [0xf4, 0x90, 0x80, 0x80, 0x22] = Inr [0xfffd, 0xfffd, 0xfffd, 0xfffd, 0x22]
   \<and> drive new_decoder [0x24, 0xc2] = Inr [0x24, 0xfffd]"
proof -
  have a: "drive new_decoder bs = Inr (ref_decode bs)" by (rule drive_ref_decode)
  have b: "drive new_decoder [0xf4, 0x8f, 0xbf, 0x22] = Inr [0xfffd, 0x22]" by code_simp
  have c: "drive new_decoder [0xf4, 0x90, 0x80, 0x80, 0x22]
      = Inr [0xfffd, 0xfffd, 0xfffd, 0xfffd, 0x22]" by code_simp
  have d: "drive new_decoder [0x24, 0xc2] = Inr [0x24, 0xfffd]" by code_simp
  from a b c d show ?thesis by simp
qed

end
